theory Spec2Isabelle
  imports Main
begin

section \<open>Machinery\<close>

subsection \<open>Faults\<close>

text \<open>
  The lexer walks a \<^verbatim>\<open>const char*\<close> over the character array of a \<^verbatim>\<open>std::string\<close>.
  That array holds the characters of the string followed by one terminating null
  character; it has no element after the terminator. Dereferencing the pointer further
  out has no defined result in C++, and neither has building a \<^verbatim>\<open>std::string\<close> from a
  pointer and a count that does not describe a range of the array. Both are values of
  the model, so that every function below is total and says where the program leaves
  its defined behaviour.
\<close>

datatype fault =
    OutOfBounds   \<comment> \<open>a read of the source array behind its terminating null character\<close>
  | LengthError   \<comment> \<open>\<^verbatim>\<open>std::string(ptr, count)\<close> with a count wrapped around below zero\<close>

subsection \<open>Decimal output of integers\<close>

fun digits :: "nat \<Rightarrow> string" where
  "digits n = (if n < 10 then [char_of (48 + n)] else digits (n div 10) @ [char_of (48 + n mod 10)])"

declare digits.simps [simp del]

text \<open>\<^verbatim>\<open>std::to_string(int)\<close> and \<^verbatim>\<open>ostream << int\<close>.\<close>

definition to_string_int :: "int \<Rightarrow> string" where
  "to_string_int i = (if i < 0 then CHR ''-'' # digits (nat (- i)) else digits (nat i))"

text \<open>\<^verbatim>\<open>out << setw(2) << i\<close>: right-justified in a field of width 2, never truncated.\<close>

definition setw2 :: "int \<Rightarrow> string" where
  "setw2 i = replicate (2 - length (to_string_int i)) (CHR '' '') @ to_string_int i"

subsection \<open>Input / Output\<close>

text \<open>
  \<^verbatim>\<open>sanitize\<close> walks the string by index and replaces a newline by backslash, \<^verbatim>\<open>n\<close> and a
  backslash by two backslashes; the index steps over the two characters written, so
  each character of the argument is looked at once.
\<close>

fun sanitize :: "string \<Rightarrow> string" where
  "sanitize [] = []"
| "sanitize (c # cs) =
     (if c = CHR 0x0A then [CHR 0x5C, CHR ''n''] @ sanitize cs
      else if c = CHR 0x5C then [CHR 0x5C, CHR 0x5C] @ sanitize cs
      else c # sanitize cs)"

subsection \<open>Scanner\<close>

text \<open>
  The position is the offset of the pointer \<^verbatim>\<open>pos\<close> from the start of the source array.
  \<^verbatim>\<open>line\<close> and \<^verbatim>\<open>col\<close> are of type \<^verbatim>\<open>int\<close> in the program; they are unbounded integers here,
  which is the same for every source of fewer than \<open>2 ^ 31\<close> characters.
\<close>

record Scanner =
  pos :: nat
  line :: int
  col :: int

text \<open>\<^verbatim>\<open>Scanner (const char* source)\<close>: position at the first character, line 1, column 1.\<close>

definition Scanner_init :: Scanner where
  "Scanner_init = \<lparr>pos = 0, line = 1, col = 1\<rparr>"

text \<open>
  \<^verbatim>\<open>*pos\<close> on the array of the source \<open>src\<close>: index \<open>length src\<close> holds the
  terminating null character, and there is nothing behind it.
\<close>

definition deref :: "string \<Rightarrow> nat \<Rightarrow> fault + char" where
  "deref src p =
     (if p < length src then Inr (src ! p)
      else if p = length src then Inr (CHR 0x00)
      else Inl OutOfBounds)"

definition peek :: "string \<Rightarrow> Scanner \<Rightarrow> fault + char" where
  "peek src sc = deref src (pos sc)"

definition advance :: "string \<Rightarrow> Scanner \<Rightarrow> fault + Scanner" where
  "advance src sc =
     (case deref src (pos sc) of
        Inl e \<Rightarrow> Inl e
      | Inr c \<Rightarrow>
          Inr (if c = CHR 0x0A then sc\<lparr>pos := pos sc + 1, line := line sc + 1, col := 1\<rparr>
               else sc\<lparr>pos := pos sc + 1, col := col sc + 1\<rparr>))"

text \<open>
  \<^verbatim>\<open>Scanner::next\<close>: advance, then peek. The scanner returned is the one the call leaves
  behind, also when the read faults.
\<close>

definition next_char :: "string \<Rightarrow> Scanner \<Rightarrow> (fault + char) \<times> Scanner" where
  "next_char src sc =
     (case advance src sc of
        Inl e \<Rightarrow> (Inl e, sc)
      | Inr sc' \<Rightarrow> (peek src sc', sc'))"

section \<open>Tokens\<close>

datatype TokenName =
    OP_MULTIPLY | OP_DIVIDE | OP_MOD | OP_ADD | OP_SUBTRACT | OP_NEGATE
  | OP_LESS | OP_LESSEQUAL | OP_GREATER | OP_GREATEREQUAL | OP_EQUAL | OP_NOTEQUAL
  | OP_NOT | OP_ASSIGN | OP_AND | OP_OR
  | LEFTPAREN | RIGHTPAREN | LEFTBRACE | RIGHTBRACE | SEMICOLON | COMMA
  | KEYWORD_IF | KEYWORD_ELSE | KEYWORD_WHILE | KEYWORD_PRINT | KEYWORD_PUTC
  | IDENTIFIER | INTEGER | STRING
  | END_OF_INPUT | ERROR

text \<open>\<^verbatim>\<open>using TokenVal = variant<int, string>\<close>. The \<^verbatim>\<open>int\<close> alternative holds a 32-bit value.\<close>

datatype TokenVal = IntVal int | StrVal string

record Token =
  name :: TokenName
  val :: TokenVal
  line :: int
  column :: int

text \<open>
  The table of \<^verbatim>\<open>to_cstring\<close> has 27 entries, up to \<^verbatim>\<open>KEYWORD_PUTC\<close>; the five names
  behind it have none, and the renderer below never asks for them.
\<close>

fun to_cstring :: "TokenName \<Rightarrow> string" where
  "to_cstring OP_MULTIPLY = ''Op_multiply''"
| "to_cstring OP_DIVIDE = ''Op_divide''"
| "to_cstring OP_MOD = ''Op_mod''"
| "to_cstring OP_ADD = ''Op_add''"
| "to_cstring OP_SUBTRACT = ''Op_subtract''"
| "to_cstring OP_NEGATE = ''Op_negate''"
| "to_cstring OP_LESS = ''Op_less''"
| "to_cstring OP_LESSEQUAL = ''Op_lessequal''"
| "to_cstring OP_GREATER = ''Op_greater''"
| "to_cstring OP_GREATEREQUAL = ''Op_greaterequal''"
| "to_cstring OP_EQUAL = ''Op_equal''"
| "to_cstring OP_NOTEQUAL = ''Op_notequal''"
| "to_cstring OP_NOT = ''Op_not''"
| "to_cstring OP_ASSIGN = ''Op_assign''"
| "to_cstring OP_AND = ''Op_and''"
| "to_cstring OP_OR = ''Op_or''"
| "to_cstring LEFTPAREN = ''LeftParen''"
| "to_cstring RIGHTPAREN = ''RightParen''"
| "to_cstring LEFTBRACE = ''LeftBrace''"
| "to_cstring RIGHTBRACE = ''RightBrace''"
| "to_cstring SEMICOLON = ''Semicolon''"
| "to_cstring COMMA = ''Comma''"
| "to_cstring KEYWORD_IF = ''Keyword_if''"
| "to_cstring KEYWORD_ELSE = ''Keyword_else''"
| "to_cstring KEYWORD_WHILE = ''Keyword_while''"
| "to_cstring KEYWORD_PRINT = ''Keyword_print''"
| "to_cstring KEYWORD_PUTC = ''Keyword_putc''"

fun to_string_TokenVal :: "TokenVal \<Rightarrow> string" where
  "to_string_TokenVal (IntVal i) = to_string_int i"
| "to_string_TokenVal (StrVal str) = str"

definition to_string_Token :: "Token \<Rightarrow> string" where
  "to_string_Token t =
     setw2 (line t) @ ''   '' @ setw2 (column t) @ ''   '' @
     (case name t of
        STRING \<Rightarrow> ''String            '' @ [CHR 0x22] @ sanitize (to_string_TokenVal (val t)) @ [CHR 0x22, CHR 0x0A]
      | INTEGER \<Rightarrow> ''Integer           '' @ to_string_TokenVal (val t) @ [CHR 0x0A]
      | IDENTIFIER \<Rightarrow> ''Identifier        '' @ to_string_TokenVal (val t) @ [CHR 0x0A]
      | ERROR \<Rightarrow> ''Error             '' @ to_string_TokenVal (val t) @ [CHR 0x0A]
      | END_OF_INPUT \<Rightarrow> ''End_of_input'' @ [CHR 0x0A]
      | _ \<Rightarrow> to_cstring (name t) @ [CHR 0x0A])"

text \<open>The loop \<^verbatim>\<open>for (auto t : tokens) s += to_string(t)\<close> over the two header lines.\<close>

definition list_tokens :: "Token list \<Rightarrow> string" where
  "list_tokens tokens =
     foldl (\<lambda>acc t. acc @ to_string_Token t)
       (''Location  Token name        Value'' @ [CHR 0x0A] @
        ''--------------------------------------'' @ [CHR 0x0A])
       tokens"

section \<open>Lexer\<close>

subsection \<open>Character classes\<close>

text \<open>
  \<^verbatim>\<open>isspace\<close>, \<^verbatim>\<open>isalpha\<close>, \<^verbatim>\<open>isdigit\<close> and \<^verbatim>\<open>isalnum\<close> of the C library on an
  \<^verbatim>\<open>unsigned char\<close>, in the "C" locale (the program never sets another).
\<close>

definition isspace :: "char \<Rightarrow> bool" where
  "isspace c = (c = CHR '' '' \<or> (9 :: nat) \<le> of_char c \<and> of_char c \<le> (13 :: nat))"

definition isalpha :: "char \<Rightarrow> bool" where
  "isalpha c = ((65 :: nat) \<le> of_char c \<and> of_char c \<le> (90 :: nat)
              \<or> (97 :: nat) \<le> of_char c \<and> of_char c \<le> (122 :: nat))"

definition isdigit :: "char \<Rightarrow> bool" where
  "isdigit c = ((48 :: nat) \<le> of_char c \<and> of_char c \<le> (57 :: nat))"

definition isalnum :: "char \<Rightarrow> bool" where
  "isalnum c = (isalpha c \<or> isdigit c)"

definition is_id_start :: "char \<Rightarrow> bool" where
  "is_id_start c = (isalpha c \<or> c = CHR ''_'')"

definition is_id_end :: "char \<Rightarrow> bool" where
  "is_id_end c = (isalnum c \<or> c = CHR ''_'')"

definition is_digit :: "char \<Rightarrow> bool" where
  "is_digit c = isdigit c"

subsection \<open>Keyword table (\<^verbatim>\<open>Lexer::keywords\<close>)\<close>

definition Lexer_keywords :: "string \<Rightarrow> TokenName option" where
  "Lexer_keywords = map_of
     [(''else'', KEYWORD_ELSE),
      (''if'', KEYWORD_IF),
      (''print'', KEYWORD_PRINT),
      (''putc'', KEYWORD_PUTC),
      (''while'', KEYWORD_WHILE)]"

subsection \<open>Numbers\<close>

text \<open>
  \<^verbatim>\<open>std::stol\<close> on the text of a digit run. It returns a \<^verbatim>\<open>long\<close>, which has 64 bits
  under the LP64 data model of GCC on the Unix systems the makefile builds for; a value
  above \<^verbatim>\<open>LONG_MAX\<close> throws \<^verbatim>\<open>out_of_range\<close>, and a text that does not start with a
  digit throws \<^verbatim>\<open>invalid_argument\<close>. (Leading blanks and a sign, which \<^verbatim>\<open>stol\<close> also
  accepts, are left out: the lexer passes digit runs only.)
\<close>

datatype stol_error = out_of_range | invalid_argument

definition LONG_MAX :: int where
  "LONG_MAX = 2 ^ 63 - 1"

definition digit_val :: "char \<Rightarrow> int" where
  "digit_val c = int (of_char c) - 48"

definition dec_value :: "string \<Rightarrow> int" where
  "dec_value ds = foldl (\<lambda>acc c. 10 * acc + digit_val c) 0 ds"

definition stol :: "string \<Rightarrow> stol_error + int" where
  "stol str =
     (let ds = takeWhile isdigit str in
      if ds = [] then Inl invalid_argument
      else if LONG_MAX < dec_value ds then Inl out_of_range
      else Inr (dec_value ds))"

text \<open>
  \<^verbatim>\<open>int n; n = stol(text)\<close> stores the \<^verbatim>\<open>long\<close> in a 32-bit \<^verbatim>\<open>int\<close>: the value is
  reduced modulo \<open>2 ^ 32\<close> into the range of \<^verbatim>\<open>int\<close>.
\<close>

definition long_to_int :: "int \<Rightarrow> int" where
  "long_to_int v = (v + 2 ^ 31) mod 2 ^ 32 - 2 ^ 31"

text \<open>
  \<^verbatim>\<open>int n = s.next()\<close> widens a \<^verbatim>\<open>char\<close>, which is a signed 8-bit type with GCC on x86;
  the characters of ASCII keep their code.
\<close>

definition char_to_int :: "char \<Rightarrow> int" where
  "char_to_int c = (if of_char c < (128 :: nat) then int (of_char c) else int (of_char c) - 256)"

subsection \<open>Lexer state\<close>

record Lexer =
  s :: Scanner
  pre_state :: Scanner

text \<open>\<^verbatim>\<open>Lexer (string_view source) : s {source.data()}, pre_state {s}\<close>.\<close>

definition Lexer_init :: Lexer where
  "Lexer_init = \<lparr>s = Scanner_init, pre_state = Scanner_init\<rparr>"

definition has_more :: "string \<Rightarrow> Lexer \<Rightarrow> fault + bool" where
  "has_more src lx =
     (case peek src (s lx) of
        Inl e \<Rightarrow> Inl e
      | Inr c \<Rightarrow> Inr (c \<noteq> CHR 0x00))"

text \<open>
  \<^verbatim>\<open>s.advance()\<close> and \<^verbatim>\<open>s.next()\<close> on the lexer's live scanner. Every operation of the
  lexer returns its result, or the fault that ended it, together with the lexer as the
  operation leaves it.
\<close>

definition s_advance :: "string \<Rightarrow> Lexer \<Rightarrow> (fault + unit) \<times> Lexer" where
  "s_advance src lx =
     (case advance src (s lx) of
        Inl e \<Rightarrow> (Inl e, lx)
      | Inr sc \<Rightarrow> (Inr (), lx\<lparr>s := sc\<rparr>))"

definition s_next :: "string \<Rightarrow> Lexer \<Rightarrow> (fault + char) \<times> Lexer" where
  "s_next src lx =
     (case next_char src (s lx) of
        (r, sc) \<Rightarrow> (r, lx\<lparr>s := sc\<rparr>))"

subsection \<open>Error tokens\<close>

text \<open>
  \<^verbatim>\<open>string code {pre_state.pos, (string::size_type) s.col - pre_state.col}\<close>: the count
  is the difference of the two columns as an unsigned 64-bit number. When the live
  column is the smaller one the difference wraps around to a count no string can have.
\<close>

definition code_excerpt :: "string \<Rightarrow> Lexer \<Rightarrow> fault + string" where
  "code_excerpt src lx =
     (if col (s lx) < col (pre_state lx) then Inl LengthError
      else
        (let n = nat (col (s lx) - col (pre_state lx)) in
         if pos (pre_state lx) + n \<le> length src + 1
         then Inr (take n (drop (pos (pre_state lx)) (src @ [CHR 0x00])))
         else Inl OutOfBounds))"

text \<open>
  \<^verbatim>\<open>error\<close>: \<open>msg_text\<close> is what the arguments of the call write to the stream, one
  after the other.
\<close>

definition error :: "string \<Rightarrow> string \<Rightarrow> Lexer \<Rightarrow> (fault + Token) \<times> Lexer" where
  "error src msg_text lx =
     (case code_excerpt src lx of
        Inl e \<Rightarrow> (Inl e, lx)
      | Inr code \<Rightarrow>
          (let msg = msg_text @ [CHR 0x0A] @ replicate 28 (CHR '' '') @ ''('' @
                     to_string_int (Scanner.line (s lx)) @ '', '' @
                     to_string_int (col (s lx)) @ ''): '' @ code;
               tok = \<lparr>name = ERROR, val = StrVal msg,
                      line = Scanner.line (pre_state lx), column = col (pre_state lx)\<rparr>
           in case peek src (s lx) of
                Inl e \<Rightarrow> (Inl e, lx)
              | Inr c \<Rightarrow>
                  if c \<noteq> CHR 0x00
                  then (case s_advance src lx of
                          (Inl e, lx') \<Rightarrow> (Inl e, lx')
                        | (Inr u, lx') \<Rightarrow> (Inr tok, lx'))
                  else (Inr tok, lx)))"

subsection \<open>Whitespace and simple tokens\<close>

function skip_whitespace :: "string \<Rightarrow> Lexer \<Rightarrow> (fault + unit) \<times> Lexer" where
  "skip_whitespace src lx =
     (case peek src (s lx) of
        Inl e \<Rightarrow> (Inl e, lx)
      | Inr c \<Rightarrow>
          if isspace c
          then (case s_advance src lx of
                  (Inl e, lx') \<Rightarrow> (Inl e, lx')
                | (Inr u, lx') \<Rightarrow> skip_whitespace src lx')
          else (Inr (), lx))"
  by pat_completeness auto
termination
  by (relation "measure (\<lambda>(src, lx). length src + 1 - pos (s lx))")
     (auto simp: peek_def deref_def s_advance_def advance_def split: if_splits sum.splits)

declare skip_whitespace.simps [simp del]

definition simple_token :: "TokenName \<Rightarrow> Lexer \<Rightarrow> Token" where
  "simple_token n lx =
     \<lparr>name = n, val = IntVal 0, line = Scanner.line (pre_state lx), column = col (pre_state lx)\<rparr>"

definition simply :: "string \<Rightarrow> TokenName \<Rightarrow> Lexer \<Rightarrow> (fault + Token) \<times> Lexer" where
  "simply src n lx =
     (case s_advance src lx of
        (Inl e, lx') \<Rightarrow> (Inl e, lx')
      | (Inr u, lx') \<Rightarrow> (Inr (simple_token n lx'), lx'))"

definition expect :: "string \<Rightarrow> char \<Rightarrow> TokenName \<Rightarrow> Lexer \<Rightarrow> (fault + Token) \<times> Lexer" where
  "expect src expected n lx =
     (case s_next src lx of
        (Inl e, lx') \<Rightarrow> (Inl e, lx')
      | (Inr c, lx') \<Rightarrow>
          if c = expected then simply src n lx'
          else error src (''Unrecognized character '' @ [CHR 0x27, c, CHR 0x27]) lx')"

definition follow :: "string \<Rightarrow> char \<Rightarrow> TokenName \<Rightarrow> TokenName \<Rightarrow> Lexer \<Rightarrow> (fault + Token) \<times> Lexer" where
  "follow src expected ifyes ifno lx =
     (case s_next src lx of
        (Inl e, lx') \<Rightarrow> (Inl e, lx')
      | (Inr c, lx') \<Rightarrow>
          if c = expected then simply src ifyes lx'
          else (Inr (simple_token ifno lx'), lx'))"

subsection \<open>Character and string literals\<close>

text \<open>
  \<open>char_lit_end\<close> is the end of \<^verbatim>\<open>char_lit\<close>, behind the switch on the escape: the
  closing quote is looked for, stepped over, and the token is built from \<open>n\<close>.
\<close>

definition char_lit_end :: "string \<Rightarrow> char \<Rightarrow> Lexer \<Rightarrow> (fault + Token) \<times> Lexer" where
  "char_lit_end src n lx =
     (case s_next src lx of
        (Inl e, lx1) \<Rightarrow> (Inl e, lx1)
      | (Inr c, lx1) \<Rightarrow>
          if c \<noteq> CHR 0x27 then error src ''Multi-character constant'' lx1
          else (case s_advance src lx1 of
                  (Inl e, lx2) \<Rightarrow> (Inl e, lx2)
                | (Inr u, lx2) \<Rightarrow>
                    (Inr \<lparr>name = INTEGER, val = IntVal (char_to_int n),
                          line = Scanner.line (pre_state lx2), column = col (pre_state lx2)\<rparr>,
                     lx2)))"

definition char_lit :: "string \<Rightarrow> Lexer \<Rightarrow> (fault + Token) \<times> Lexer" where
  "char_lit src lx =
     (case s_next src lx of
        (Inl e, lx1) \<Rightarrow> (Inl e, lx1)
      | (Inr n, lx1) \<Rightarrow>
          if n = CHR 0x27 then error src ''Empty character constant'' lx1
          else if n = CHR 0x5C then
            (case s_next src lx1 of
               (Inl e, lx2) \<Rightarrow> (Inl e, lx2)
             | (Inr c, lx2) \<Rightarrow>
                 if c = CHR ''n'' then char_lit_end src (CHR 0x0A) lx2
                 else if c = CHR 0x5C then char_lit_end src (CHR 0x5C) lx2
                 else error src (''Unknown escape sequence '' @ [CHR 0x5C, c]) lx2)
          else char_lit_end src n lx1)"

text \<open>
  The loop of \<^verbatim>\<open>string_lit\<close>, with the text gathered so far; \<^verbatim>\<open>continue\<close> and the
  end of the switch both lead to the next test of the loop condition.
\<close>

function string_lit_loop :: "string \<Rightarrow> string \<Rightarrow> Lexer \<Rightarrow> (fault + Token) \<times> Lexer" where
  "string_lit_loop src text_acc lx =
     (case s_next src lx of
        (Inl e, lx1) \<Rightarrow> (Inl e, lx1)
      | (Inr c, lx1) \<Rightarrow>
          if c = CHR 0x22 then
            (case s_advance src lx1 of
               (Inl e, lx2) \<Rightarrow> (Inl e, lx2)
             | (Inr u, lx2) \<Rightarrow>
                 (Inr \<lparr>name = STRING, val = StrVal text_acc,
                       line = Scanner.line (pre_state lx2), column = col (pre_state lx2)\<rparr>,
                  lx2))
          else if c = CHR 0x5C then
            (case s_next src lx1 of
               (Inl e, lx2) \<Rightarrow> (Inl e, lx2)
             | (Inr d, lx2) \<Rightarrow>
                 if d = CHR ''n'' then string_lit_loop src (text_acc @ [CHR 0x0A]) lx2
                 else if d = CHR 0x5C then string_lit_loop src (text_acc @ [CHR 0x5C]) lx2
                 else error src (''Unknown escape sequence '' @ [CHR 0x5C, d]) lx2)
          else if c = CHR 0x0A then
            error src (''End-of-line while scanning string literal.'' @
                       '' Closing string character not found before end-of-line.'') lx1
          else if c = CHR 0x00 then
            error src (''End-of-file while scanning string literal.'' @
                       '' Closing string character not found.'') lx1
          else string_lit_loop src (text_acc @ [c]) lx1)"
  by pat_completeness auto
termination
  by (relation "measure (\<lambda>(src, text_acc, lx). length src + 2 - pos (s lx))")
     (auto simp: s_next_def next_char_def peek_def deref_def advance_def
           split: if_splits sum.splits prod.splits)

declare string_lit_loop.simps [simp del]

definition string_lit :: "string \<Rightarrow> Lexer \<Rightarrow> (fault + Token) \<times> Lexer" where
  "string_lit src lx = string_lit_loop src [] lx"

subsection \<open>Identifiers and integers\<close>

text \<open>
  \<^verbatim>\<open>Lexer::identifier\<close> (\<open>identifier_token\<close> here) and its loop
  \<^verbatim>\<open>while (is_id_end(s.next())) text += s.peek()\<close>.
\<close>

function identifier_loop :: "string \<Rightarrow> string \<Rightarrow> Lexer \<Rightarrow> (fault + string) \<times> Lexer" where
  "identifier_loop src text_acc lx =
     (case s_next src lx of
        (Inl e, lx1) \<Rightarrow> (Inl e, lx1)
      | (Inr c, lx1) \<Rightarrow>
          if is_id_end c then identifier_loop src (text_acc @ [c]) lx1
          else (Inr text_acc, lx1))"
  by pat_completeness auto
termination
  by (relation "measure (\<lambda>(src, text_acc, lx). length src + 2 - pos (s lx))")
     (auto simp: s_next_def next_char_def peek_def deref_def advance_def
           split: if_splits sum.splits prod.splits)

declare identifier_loop.simps [simp del]

definition identifier_token :: "string \<Rightarrow> Lexer \<Rightarrow> (fault + Token) \<times> Lexer" where
  "identifier_token src lx =
     (case peek src (s lx) of
        Inl e \<Rightarrow> (Inl e, lx)
      | Inr c \<Rightarrow>
          (case identifier_loop src [c] lx of
             (Inl e, lx1) \<Rightarrow> (Inl e, lx1)
           | (Inr text_acc, lx1) \<Rightarrow>
               (case Lexer_keywords text_acc of
                  Some k \<Rightarrow>
                    (Inr \<lparr>name = k, val = IntVal 0,
                          line = Scanner.line (pre_state lx1), column = col (pre_state lx1)\<rparr>,
                     lx1)
                | None \<Rightarrow>
                    (Inr \<lparr>name = IDENTIFIER, val = StrVal text_acc,
                          line = Scanner.line (pre_state lx1), column = col (pre_state lx1)\<rparr>,
                     lx1))))"

text \<open>The loop \<^verbatim>\<open>while (is_digit(s.next())) text += s.peek()\<close>.\<close>

function integer_lit_loop :: "string \<Rightarrow> string \<Rightarrow> Lexer \<Rightarrow> (fault + string) \<times> Lexer" where
  "integer_lit_loop src text_acc lx =
     (case s_next src lx of
        (Inl e, lx1) \<Rightarrow> (Inl e, lx1)
      | (Inr c, lx1) \<Rightarrow>
          if is_digit c then integer_lit_loop src (text_acc @ [c]) lx1
          else (Inr text_acc, lx1))"
  by pat_completeness auto
termination
  by (relation "measure (\<lambda>(src, text_acc, lx). length src + 2 - pos (s lx))")
     (auto simp: s_next_def next_char_def peek_def deref_def advance_def
           split: if_splits sum.splits prod.splits)

declare integer_lit_loop.simps [simp del]

definition integer_lit :: "string \<Rightarrow> Lexer \<Rightarrow> (fault + Token) \<times> Lexer" where
  "integer_lit src lx =
     (case peek src (s lx) of
        Inl e \<Rightarrow> (Inl e, lx)
      | Inr c \<Rightarrow>
          (case integer_lit_loop src [c] lx of
             (Inl e, lx1) \<Rightarrow> (Inl e, lx1)
           | (Inr text_acc, lx1) \<Rightarrow>
               (case peek src (s lx1) of
                  Inl e \<Rightarrow> (Inl e, lx1)
                | Inr d \<Rightarrow>
                    if is_id_start d then
                      error src (''Invalid number. Starts like a number,'' @
                                 '' but ends in non-numeric characters.'') lx1
                    else
                      (case stol text_acc of
                         Inl out_of_range \<Rightarrow> error src ''Number exceeds maximum value'' lx1
                       | Inl invalid_argument \<Rightarrow> error src text_acc lx1
                       | Inr v \<Rightarrow>
                           (Inr \<lparr>name = INTEGER, val = IntVal (long_to_int v),
                                 line = Scanner.line (pre_state lx1), column = col (pre_state lx1)\<rparr>,
                            lx1)))))"

subsection \<open>Token production\<close>

text \<open>
  \<^verbatim>\<open>next_token\<close> hands a slash to \<^verbatim>\<open>divide_or_comment\<close>, whose comment loop, at the
  closing characters of a comment, returns what a fresh call of \<^verbatim>\<open>next_token\<close> gives:
  the three are defined together. The switch of \<^verbatim>\<open>next_token\<close> is a chain of tests, its
  \<^verbatim>\<open>default\<close> branch last.
\<close>

lemma skip_whitespace_pos_mono:
  "skip_whitespace src lx = (r, lx') \<Longrightarrow> pos (s lx) \<le> pos (s lx')"
proof (induction src lx arbitrary: r lx' rule: skip_whitespace.induct)
  case (1 src lx)
  show ?case
  proof (cases "peek src (s lx)")
    case (Inl e)
    with "1.prems" show ?thesis by (simp add: skip_whitespace.simps)
  next
    case (Inr c)
    show ?thesis
    proof (cases "isspace c")
      case False
      with Inr "1.prems" show ?thesis by (simp add: skip_whitespace.simps)
    next
      case True
      show ?thesis
      proof (cases "s_advance src lx")
        case (Pair a lx1)
        have step: "pos (s lx) \<le> pos (s lx1)"
          using Pair by (auto simp: s_advance_def advance_def split: sum.splits if_splits)
        show ?thesis
        proof (cases a)
          case (Inl e)
          with Pair True Inr "1.prems" step show ?thesis by (simp add: skip_whitespace.simps)
        next
          case (Inr u)
          with Pair True \<open>peek src (s lx) = Inr c\<close> "1.prems"
          have "skip_whitespace src lx1 = (r, lx')" by (simp add: skip_whitespace.simps)
          with "1.IH" [OF \<open>peek src (s lx) = Inr c\<close> True Pair [symmetric] Inr] step
          show ?thesis by simp
        qed
      qed
    qed
  qed
qed

function next_token :: "string \<Rightarrow> Lexer \<Rightarrow> (fault + Token) \<times> Lexer"
  and divide_or_comment :: "string \<Rightarrow> Lexer \<Rightarrow> (fault + Token) \<times> Lexer"
  and comment_loop :: "string \<Rightarrow> Lexer \<Rightarrow> (fault + Token) \<times> Lexer"
where
  "next_token src lx =
     (case skip_whitespace src lx of
        (Inl e, lx1) \<Rightarrow> (Inl e, lx1)
      | (Inr u, lx1) \<Rightarrow>
          (let lx2 = lx1\<lparr>pre_state := s lx1\<rparr> in
           case peek src (s lx2) of
             Inl e \<Rightarrow> (Inl e, lx2)
           | Inr c \<Rightarrow>
               if c = CHR ''*'' then simply src OP_MULTIPLY lx2
               else if c = CHR ''%'' then simply src OP_MOD lx2
               else if c = CHR ''+'' then simply src OP_ADD lx2
               else if c = CHR ''-'' then simply src OP_SUBTRACT lx2
               else if c = CHR ''{'' then simply src LEFTBRACE lx2
               else if c = CHR ''}'' then simply src RIGHTBRACE lx2
               else if c = CHR ''('' then simply src LEFTPAREN lx2
               else if c = CHR '')'' then simply src RIGHTPAREN lx2
               else if c = CHR '';'' then simply src SEMICOLON lx2
               else if c = CHR '','' then simply src COMMA lx2
               else if c = CHR ''&'' then expect src (CHR ''&'') OP_AND lx2
               else if c = CHR ''|'' then expect src (CHR ''|'') OP_OR lx2
               else if c = CHR ''<'' then follow src (CHR ''='') OP_LESSEQUAL OP_LESS lx2
               else if c = CHR ''>'' then follow src (CHR ''='') OP_GREATEREQUAL OP_GREATER lx2
               else if c = CHR ''='' then follow src (CHR ''='') OP_EQUAL OP_ASSIGN lx2
               else if c = CHR ''!'' then follow src (CHR ''='') OP_NOTEQUAL OP_NOT lx2
               else if c = CHR ''/'' then divide_or_comment src lx2
               else if c = CHR 0x27 then char_lit src lx2
               else if c = CHR 0x22 then string_lit src lx2
               else if c = CHR 0x00 then (Inr (simple_token END_OF_INPUT lx2), lx2)
               else if is_id_start c then identifier_token src lx2
               else if is_digit c then integer_lit src lx2
               else error src (''Unrecognized character '' @ [CHR 0x27, c, CHR 0x27]) lx2))"
| "divide_or_comment src lx =
     (case s_next src lx of
        (Inl e, lx1) \<Rightarrow> (Inl e, lx1)
      | (Inr c, lx1) \<Rightarrow>
          if c \<noteq> CHR ''*'' then (Inr (simple_token OP_DIVIDE lx1), lx1)
          else comment_loop src lx1)"
| "comment_loop src lx =
     (case s_next src lx of
        (Inl e, lx1) \<Rightarrow> (Inl e, lx1)
      | (Inr c, lx1) \<Rightarrow>
          if c \<noteq> CHR 0x00 then
            (if c = CHR ''*'' then
               (case s_next src lx1 of
                  (Inl e, lx2) \<Rightarrow> (Inl e, lx2)
                | (Inr d, lx2) \<Rightarrow>
                    if d = CHR ''/'' then
                      (case s_advance src lx2 of
                         (Inl e, lx3) \<Rightarrow> (Inl e, lx3)
                       | (Inr u, lx3) \<Rightarrow> next_token src lx3)
                    else comment_loop src lx2)
             else comment_loop src lx1)
          else error src ''End-of-file in comment. Closing comment characters not found.'' lx1)"
  by pat_completeness auto
termination
proof (relation "measure (\<lambda>x. case x of
          Inl (src, lx) \<Rightarrow> 2 * (length src + 2 - pos (s lx)) + 1
        | Inr (Inl (src, lx)) \<Rightarrow> 2 * (length src + 2 - pos (s lx))
        | Inr (Inr (src, lx)) \<Rightarrow> 2 * (length src + 2 - pos (s lx)) + 1)", goal_cases)
  case 1
  show ?case by simp
next
  case (2 src lx x1 x2 u lx2 c)
  then show ?case
    using skip_whitespace_pos_mono [of src lx x1 x2] by auto
next
  case (3 src lx x1 x2 c)
  then show ?case
    by (auto simp: s_next_def next_char_def peek_def deref_def advance_def
             split: if_splits sum.splits prod.splits)
next
  case (4 src lx x1 x2 c y1 y2 d z1 z2 u)
  then show ?case
    by (auto simp: s_next_def next_char_def peek_def deref_def advance_def s_advance_def
             split: if_splits sum.splits prod.splits)
next
  case (5 src lx x1 x2 c y1 y2 d)
  then show ?case
    by (auto simp: s_next_def next_char_def peek_def deref_def advance_def
             split: if_splits sum.splits prod.splits)
next
  case (6 src lx x1 x2 c)
  then show ?case
    by (auto simp: s_next_def next_char_def peek_def deref_def advance_def
             split: if_splits sum.splits prod.splits)
qed

declare next_token.simps [simp del] divide_or_comment.simps [simp del] comment_loop.simps [simp del]

section \<open>Progress of the cursor\<close>

subsection \<open>Reads and single steps\<close>

lemma deref_Inr_le: "deref src p = Inr c \<Longrightarrow> p \<le> length src"
  by (auto simp: deref_def split: if_splits)

lemma deref_nonzero_less: "deref src p = Inr c \<Longrightarrow> c \<noteq> CHR 0x00 \<Longrightarrow> p < length src"
  by (auto simp: deref_def split: if_splits)

lemma deref_within: "p \<le> length src \<Longrightarrow> \<exists>c. deref src p = Inr c"
  by (auto simp: deref_def)

lemma deref_Inl: "deref src p = Inl e \<Longrightarrow> length src < p \<and> e = OutOfBounds"
  by (auto simp: deref_def split: if_splits)

lemma s_advance_within_ex:
  "pos (s lx) \<le> length src \<Longrightarrow>
     \<exists>lx'. s_advance src lx = (Inr (), lx') \<and> pos (s lx') = pos (s lx) + 1 \<and>
           pre_state lx' = pre_state lx"
  by (cases "pos (s lx) < length src") (simp_all add: s_advance_def advance_def deref_def)

lemma s_advance_within:
  assumes "pos (s lx) \<le> length src"
  obtains lx' where "s_advance src lx = (Inr (), lx')" "pos (s lx') = pos (s lx) + 1"
    "pre_state lx' = pre_state lx"
  using s_advance_within_ex [OF assms] by blast

lemma s_next_within_ex:
  "pos (s lx) \<le> length src \<Longrightarrow>
     \<exists>lx'. s_next src lx = (deref src (pos (s lx) + 1), lx') \<and> pos (s lx') = pos (s lx) + 1 \<and>
           pre_state lx' = pre_state lx"
  by (cases "pos (s lx) < length src")
     (simp_all add: s_next_def next_char_def peek_def advance_def deref_def)

lemma s_next_within:
  assumes "pos (s lx) \<le> length src"
  obtains lx' where "s_next src lx = (deref src (pos (s lx) + 1), lx')"
    "pos (s lx') = pos (s lx) + 1" "pre_state lx' = pre_state lx"
  using s_next_within_ex [OF assms] by blast

lemma error_pos:
  "pos (s lx) \<le> length src \<Longrightarrow> error src m lx = (r, lx') \<Longrightarrow>
     pos (s lx) \<le> pos (s lx') \<and> pos (s lx') \<le> length src"
  by (auto simp: error_def Let_def peek_def deref_def s_advance_def advance_def
           split: sum.splits if_splits prod.splits)

lemma error_name:
  "error src m lx = (Inr t, lx') \<Longrightarrow> name t = ERROR"
  by (auto simp: error_def Let_def split: sum.splits if_splits prod.splits)


text \<open>
  A call has \<open>advanced\<close> when it leaves the cursor strictly behind where it found it and
  inside the array: on the terminator at most when it returns a result, one element
  behind it at most when a read has faulted.
\<close>

definition advanced :: "string \<Rightarrow> Lexer \<Rightarrow> (fault + 'a) \<times> Lexer \<Rightarrow> bool" where
  "advanced src lx res =
     (pos (s lx) < pos (s (snd res)) \<and>
      pos (s (snd res)) \<le> (case fst res of Inl e \<Rightarrow> length src + 1 | Inr t \<Rightarrow> length src))"

lemma advanced_trans:
  "advanced src lx res \<Longrightarrow> pos (s lx0) \<le> pos (s lx) \<Longrightarrow> advanced src lx0 res"
  by (auto simp: advanced_def)

lemma error_advanced:
  assumes "pos (s lx0) < pos (s lx)" "pos (s lx) \<le> length src"
  shows "advanced src lx0 (error src m lx)"
proof (cases "error src m lx")
  case (Pair r lx')
  from error_pos [OF assms(2) Pair] assms(1) show ?thesis
    unfolding Pair by (auto simp: advanced_def split: sum.splits)
qed

lemma simply_advanced:
  assumes "pos (s lx) < length src"
  shows "advanced src lx (simply src n lx)"
proof -
  from assms have "pos (s lx) \<le> length src" by simp
  then obtain lx' where "s_advance src lx = (Inr (), lx')" "pos (s lx') = pos (s lx) + 1"
    by (rule s_advance_within)
  with assms show ?thesis by (simp add: simply_def advanced_def)
qed

lemma expect_advanced:
  assumes "pos (s lx) < length src" "expected \<noteq> CHR 0x00"
  shows "advanced src lx (expect src expected n lx)"
proof -
  from assms(1) have "pos (s lx) \<le> length src" by simp
  then obtain lx1 where nx: "s_next src lx = (deref src (pos (s lx) + 1), lx1)"
    and p1: "pos (s lx1) = pos (s lx) + 1" by (rule s_next_within)
  from assms(1) obtain c where c: "deref src (pos (s lx) + 1) = Inr c"
    using deref_within [of "pos (s lx) + 1" src] by auto
  show ?thesis
  proof (cases "c = expected")
    case True
    with assms(2) c have "pos (s lx) + 1 < length src" by (auto dest: deref_nonzero_less)
    with p1 have "advanced src lx1 (simply src n lx1)" by (intro simply_advanced) simp
    then have "advanced src lx (simply src n lx1)"
      by (rule advanced_trans) (simp add: p1)
    with True c nx show ?thesis by (simp add: expect_def)
  next
    case False
    have "advanced src lx (error src (''Unrecognized character '' @ [CHR 0x27, c, CHR 0x27]) lx1)"
      using p1 assms(1) by (intro error_advanced) auto
    with False c nx show ?thesis by (simp add: expect_def)
  qed
qed

lemma follow_advanced:
  assumes "pos (s lx) < length src" "expected \<noteq> CHR 0x00"
  shows "advanced src lx (follow src expected ifyes ifno lx)"
proof -
  from assms(1) have "pos (s lx) \<le> length src" by simp
  then obtain lx1 where nx: "s_next src lx = (deref src (pos (s lx) + 1), lx1)"
    and p1: "pos (s lx1) = pos (s lx) + 1" by (rule s_next_within)
  from assms(1) obtain c where c: "deref src (pos (s lx) + 1) = Inr c"
    using deref_within [of "pos (s lx) + 1" src] by auto
  show ?thesis
  proof (cases "c = expected")
    case True
    with assms(2) c have "pos (s lx) + 1 < length src" by (auto dest: deref_nonzero_less)
    with p1 have "advanced src lx1 (simply src ifyes lx1)" by (intro simply_advanced) simp
    then have "advanced src lx (simply src ifyes lx1)"
      by (rule advanced_trans) (simp add: p1)
    with True c nx show ?thesis by (simp add: follow_def)
  next
    case False
    with c nx p1 assms(1) show ?thesis by (simp add: follow_def advanced_def)
  qed
qed

lemma char_lit_end_advanced:
  assumes "pos (s lx) \<le> length src"
  shows "advanced src lx (char_lit_end src n lx)"
proof -
  from assms obtain lx1 where nx: "s_next src lx = (deref src (pos (s lx) + 1), lx1)"
    and p1: "pos (s lx1) = pos (s lx) + 1" by (rule s_next_within)
  show ?thesis
  proof (cases "deref src (pos (s lx) + 1)")
    case (Inl e)
    with nx p1 assms show ?thesis by (simp add: char_lit_end_def advanced_def)
  next
    case (Inr c)
    with p1 have le: "pos (s lx1) \<le> length src" by (auto dest: deref_Inr_le)
    show ?thesis
    proof (cases "c = CHR 0x27")
      case False
      have "advanced src lx (error src ''Multi-character constant'' lx1)"
        using p1 le by (intro error_advanced) auto
      with False Inr nx show ?thesis by (simp add: char_lit_end_def)
    next
      case True
      with Inr p1 have lt: "pos (s lx1) < length src" by (auto dest: deref_nonzero_less)
      from le obtain lx2 where "s_advance src lx1 = (Inr (), lx2)" "pos (s lx2) = pos (s lx1) + 1"
        by (rule s_advance_within)
      with lt p1 True Inr nx show ?thesis
        by (simp add: char_lit_end_def advanced_def)
    qed
  qed
qed

lemma char_lit_advanced:
  assumes "pos (s lx) < length src"
  shows "advanced src lx (char_lit src lx)"
proof -
  from assms have "pos (s lx) \<le> length src" by simp
  then obtain lx1 where nx: "s_next src lx = (deref src (pos (s lx) + 1), lx1)"
    and p1: "pos (s lx1) = pos (s lx) + 1" by (rule s_next_within)
  from assms obtain n where n: "deref src (pos (s lx) + 1) = Inr n"
    using deref_within [of "pos (s lx) + 1" src] by auto
  from assms p1 have le: "pos (s lx1) \<le> length src" by simp
  consider (empty) "n = CHR 0x27" | (esc) "n \<noteq> CHR 0x27" "n = CHR 0x5C"
    | (plain) "n \<noteq> CHR 0x27" "n \<noteq> CHR 0x5C" by blast
  then show ?thesis
  proof cases
    case empty
    have "advanced src lx (error src ''Empty character constant'' lx1)"
      using p1 le by (intro error_advanced) auto
    with empty n nx show ?thesis by (simp add: char_lit_def)
  next
    case plain
    have "advanced src lx (char_lit_end src n lx1)"
      using char_lit_end_advanced [OF le] by (rule advanced_trans) (simp add: p1)
    with plain n nx show ?thesis by (simp add: char_lit_def)
  next
    case esc
    with n p1 have lt: "pos (s lx1) < length src" by (auto dest: deref_nonzero_less)
    from le obtain lx2 where nx2: "s_next src lx1 = (deref src (pos (s lx1) + 1), lx2)"
      and p2: "pos (s lx2) = pos (s lx1) + 1" by (rule s_next_within)
    from lt obtain c where c: "deref src (pos (s lx1) + 1) = Inr c"
      using deref_within [of "pos (s lx1) + 1" src] by auto
    from lt p2 have le2: "pos (s lx2) \<le> length src" by simp
    have e1: "advanced src lx (char_lit_end src m lx2)" for m
      using char_lit_end_advanced [OF le2] by (rule advanced_trans) (simp add: p1 p2)
    have e2: "advanced src lx (error src m lx2)" for m
      using p1 p2 le2 by (intro error_advanced) auto
    from esc n nx nx2 c e1 e2 show ?thesis by (simp add: char_lit_def)
  qed
qed

subsection \<open>Literals, identifiers, numbers and whitespace\<close>

lemma string_lit_loop_advanced:
  "pos (s lx) \<le> length src \<Longrightarrow> advanced src lx (string_lit_loop src acc lx)"
proof (induction src acc lx rule: string_lit_loop.induct)
  case (1 src acc lx)
  from "1.prems" obtain lx1 where nx: "s_next src lx = (deref src (pos (s lx) + 1), lx1)"
    and p1: "pos (s lx1) = pos (s lx) + 1" by (rule s_next_within)
  show ?case
  proof (cases "deref src (pos (s lx) + 1)")
    case (Inl e)
    with nx p1 "1.prems" show ?thesis
      by (subst string_lit_loop.simps) (simp add: advanced_def)
  next
    case (Inr c)
    with p1 have le: "pos (s lx1) \<le> length src" by (auto dest: deref_Inr_le)
    have err: "advanced src lx (error src m lx1)" for m
      using p1 le by (intro error_advanced) auto
    consider (quote) "c = CHR 0x22" | (esc) "c \<noteq> CHR 0x22" "c = CHR 0x5C"
      | (eol) "c \<noteq> CHR 0x22" "c \<noteq> CHR 0x5C" "c = CHR 0x0A"
      | (eof) "c \<noteq> CHR 0x22" "c \<noteq> CHR 0x5C" "c \<noteq> CHR 0x0A" "c = CHR 0x00"
      | (plain) "c \<noteq> CHR 0x22" "c \<noteq> CHR 0x5C" "c \<noteq> CHR 0x0A" "c \<noteq> CHR 0x00" by blast
    then show ?thesis
    proof cases
      case quote
      with Inr p1 have lt: "pos (s lx1) < length src" by (auto dest: deref_nonzero_less)
      from le obtain lx2 where "s_advance src lx1 = (Inr (), lx2)" "pos (s lx2) = pos (s lx1) + 1"
        by (rule s_advance_within)
      with lt p1 quote Inr nx show ?thesis
        by (subst string_lit_loop.simps) (simp add: advanced_def)
    next
      case eol
      with Inr nx err show ?thesis by (subst string_lit_loop.simps) simp
    next
      case eof
      with Inr nx err show ?thesis by (subst string_lit_loop.simps) simp
    next
      case plain
      have "advanced src lx1 (string_lit_loop src (acc @ [c]) lx1)"
        using "1.IH"(3) [OF nx [unfolded Inr, symmetric] refl] plain le by simp
      then have "advanced src lx (string_lit_loop src (acc @ [c]) lx1)"
        by (rule advanced_trans) (simp add: p1)
      with plain Inr nx show ?thesis by (subst string_lit_loop.simps) simp
    next
      case esc
      with Inr p1 have lt: "pos (s lx1) < length src" by (auto dest: deref_nonzero_less)
      from le obtain lx2 where nx2: "s_next src lx1 = (deref src (pos (s lx1) + 1), lx2)"
        and p2: "pos (s lx2) = pos (s lx1) + 1" by (rule s_next_within)
      from lt obtain d where d: "deref src (pos (s lx1) + 1) = Inr d"
        using deref_within [of "pos (s lx1) + 1" src] by auto
      from lt p2 have le2: "pos (s lx2) \<le> length src" by simp
      have err2: "advanced src lx (error src m lx2)" for m
        using p1 p2 le2 by (intro error_advanced) auto
      show ?thesis
      proof (cases "d = CHR ''n''")
        case True
        have "advanced src lx2 (string_lit_loop src (acc @ [CHR 0x0A]) lx2)"
          using "1.IH"(1) [OF nx [unfolded Inr, symmetric] refl _ _ nx2 [unfolded d, symmetric] refl]
            esc True le2 by simp
        then have "advanced src lx (string_lit_loop src (acc @ [CHR 0x0A]) lx2)"
          by (rule advanced_trans) (simp add: p1 p2)
        with esc True Inr nx nx2 d show ?thesis by (subst string_lit_loop.simps) simp
      next
        case False
        show ?thesis
        proof (cases "d = CHR 0x5C")
          case True
          have "advanced src lx2 (string_lit_loop src (acc @ [CHR 0x5C]) lx2)"
            using "1.IH"(2) [OF nx [unfolded Inr, symmetric] refl _ _ nx2 [unfolded d, symmetric] refl]
              esc True False le2 by simp
          then have "advanced src lx (string_lit_loop src (acc @ [CHR 0x5C]) lx2)"
            by (rule advanced_trans) (simp add: p1 p2)
          with esc True False Inr nx nx2 d show ?thesis by (subst string_lit_loop.simps) simp
        next
          case F2: False
          with esc False Inr nx nx2 d err2 show ?thesis by (subst string_lit_loop.simps) simp
        qed
      qed
    qed
  qed
qed


lemma string_lit_advanced:
  "pos (s lx) \<le> length src \<Longrightarrow> advanced src lx (string_lit src lx)"
  by (simp add: string_lit_def string_lit_loop_advanced)

lemma identifier_loop_advanced:
  "pos (s lx) \<le> length src \<Longrightarrow> advanced src lx (identifier_loop src acc lx)"
proof (induction src acc lx rule: identifier_loop.induct)
  case (1 src acc lx)
  from "1.prems" obtain lx1 where nx: "s_next src lx = (deref src (pos (s lx) + 1), lx1)"
    and p1: "pos (s lx1) = pos (s lx) + 1" by (rule s_next_within)
  show ?case
  proof (cases "deref src (pos (s lx) + 1)")
    case (Inl e)
    with nx p1 "1.prems" show ?thesis
      by (subst identifier_loop.simps) (simp add: advanced_def)
  next
    case (Inr c)
    with p1 have le: "pos (s lx1) \<le> length src" by (auto dest: deref_Inr_le)
    show ?thesis
    proof (cases "is_id_end c")
      case True
      have "advanced src lx1 (identifier_loop src (acc @ [c]) lx1)"
        using "1.IH" [OF nx [unfolded Inr, symmetric] refl True] le by simp
      then have "advanced src lx (identifier_loop src (acc @ [c]) lx1)"
        by (rule advanced_trans) (simp add: p1)
      with True Inr nx show ?thesis by (subst identifier_loop.simps) simp
    next
      case False
      with Inr nx p1 le show ?thesis
        by (subst identifier_loop.simps) (simp add: advanced_def)
    qed
  qed
qed

lemma integer_lit_loop_advanced:
  "pos (s lx) \<le> length src \<Longrightarrow> advanced src lx (integer_lit_loop src acc lx)"
proof (induction src acc lx rule: integer_lit_loop.induct)
  case (1 src acc lx)
  from "1.prems" obtain lx1 where nx: "s_next src lx = (deref src (pos (s lx) + 1), lx1)"
    and p1: "pos (s lx1) = pos (s lx) + 1" by (rule s_next_within)
  show ?case
  proof (cases "deref src (pos (s lx) + 1)")
    case (Inl e)
    with nx p1 "1.prems" show ?thesis
      by (subst integer_lit_loop.simps) (simp add: advanced_def)
  next
    case (Inr c)
    with p1 have le: "pos (s lx1) \<le> length src" by (auto dest: deref_Inr_le)
    show ?thesis
    proof (cases "is_digit c")
      case True
      have "advanced src lx1 (integer_lit_loop src (acc @ [c]) lx1)"
        using "1.IH" [OF nx [unfolded Inr, symmetric] refl True] le by simp
      then have "advanced src lx (integer_lit_loop src (acc @ [c]) lx1)"
        by (rule advanced_trans) (simp add: p1)
      with True Inr nx show ?thesis by (subst integer_lit_loop.simps) simp
    next
      case False
      with Inr nx p1 le show ?thesis
        by (subst integer_lit_loop.simps) (simp add: advanced_def)
    qed
  qed
qed

lemma identifier_token_advanced:
  assumes "pos (s lx) \<le> length src"
  shows "advanced src lx (identifier_token src lx)"
proof -
  from assms obtain c where c: "peek src (s lx) = Inr c"
    using deref_within [of "pos (s lx)" src] by (auto simp: peek_def)
  obtain r lx1 where loop: "identifier_loop src [c] lx = (r, lx1)"
    by (cases "identifier_loop src [c] lx")
  from identifier_loop_advanced [OF assms, of "[c]"] loop
  have "advanced src lx (r, lx1)" by simp
  with c loop show ?thesis
    by (auto simp: identifier_token_def advanced_def split: sum.splits option.splits)
qed

lemma integer_lit_advanced:
  assumes "pos (s lx) \<le> length src"
  shows "advanced src lx (integer_lit src lx)"
proof -
  from assms obtain c where c: "peek src (s lx) = Inr c"
    using deref_within [of "pos (s lx)" src] by (auto simp: peek_def)
  obtain r lx1 where loop: "integer_lit_loop src [c] lx = (r, lx1)"
    by (cases "integer_lit_loop src [c] lx")
  from integer_lit_loop_advanced [OF assms, of "[c]"] loop
  have adv: "advanced src lx (r, lx1)" by simp
  show ?thesis
  proof (cases r)
    case (Inl e)
    with c loop adv show ?thesis by (simp add: integer_lit_def advanced_def)
  next
    case (Inr digs)
    with adv have le: "pos (s lx1) \<le> length src" and lt: "pos (s lx) < pos (s lx1)"
      by (simp_all add: advanced_def)
    from le obtain d where d: "peek src (s lx1) = Inr d"
      using deref_within [of "pos (s lx1)" src] by (auto simp: peek_def)
    have err: "advanced src lx (error src m lx1)" for m
      using lt le by (rule error_advanced)
    have tok: "advanced src lx (Inr t, lx1)" for t :: Token
      using lt le by (simp add: advanced_def)
    from c loop Inr d err tok show ?thesis
      by (simp add: integer_lit_def split: sum.splits stol_error.splits)
  qed
qed

lemma skip_whitespace_within:
  "pos (s lx) \<le> length src \<Longrightarrow>
     \<exists>lx1 c. skip_whitespace src lx = (Inr (), lx1) \<and> pos (s lx) \<le> pos (s lx1) \<and>
            deref src (pos (s lx1)) = Inr c \<and> \<not> isspace c \<and>
            (pos (s lx1) = pos (s lx) \<or> isspace (src ! (pos (s lx1) - 1)))"
proof (induction src lx rule: skip_whitespace.induct)
  case (1 src lx)
  from "1.prems" obtain c where c: "peek src (s lx) = Inr c"
    using deref_within [of "pos (s lx)" src] by (auto simp: peek_def)
  show ?case
  proof (cases "isspace c")
    case False
    with c show ?thesis by (subst skip_whitespace.simps) (simp add: peek_def)
  next
    case True
    then have "c \<noteq> CHR 0x00" by (auto simp: isspace_def)
    with c have lt: "pos (s lx) < length src" by (auto simp: peek_def dest: deref_nonzero_less)
    with c have cs: "c = src ! pos (s lx)" by (simp add: peek_def deref_def)
    from "1.prems" obtain lx1 where adv: "s_advance src lx = (Inr (), lx1)"
      and p1: "pos (s lx1) = pos (s lx) + 1" by (rule s_advance_within)
    from lt p1 have "pos (s lx1) \<le> length src" by simp
    from "1.IH" [OF c True adv [symmetric] refl this]
    obtain lx2 d where *: "skip_whitespace src lx1 = (Inr (), lx2)" "pos (s lx1) \<le> pos (s lx2)"
      "deref src (pos (s lx2)) = Inr d" "\<not> isspace d"
      "pos (s lx2) = pos (s lx1) \<or> isspace (src ! (pos (s lx2) - 1))" by blast
    from * p1 True cs have "isspace (src ! (pos (s lx2) - 1))" by auto
    with * p1 c True adv show ?thesis
      by (subst skip_whitespace.simps) auto
  qed
qed

subsection \<open>Token production\<close>

text \<open>
  A call of \<^verbatim>\<open>next_token\<close> has \<open>stepped\<close> when it has advanced, or when it has found
  the cursor on a null character and has returned the end-of-input token from there.
\<close>

definition stepped :: "string \<Rightarrow> Lexer \<Rightarrow> (fault + Token) \<times> Lexer \<Rightarrow> bool" where
  "stepped src lx res =
     (advanced src lx res \<or>
      (pos (s (snd res)) = pos (s lx) \<and> deref src (pos (s lx)) = Inr (CHR 0x00) \<and>
       (case fst res of Inl e \<Rightarrow> False | Inr t \<Rightarrow> name t = END_OF_INPUT)))"

lemma stepped_bounds:
  "stepped src lx (r, lx') \<Longrightarrow>
     pos (s lx) \<le> pos (s lx') \<and>
     pos (s lx') \<le> (case r of Inl e \<Rightarrow> length src + 1 | Inr t \<Rightarrow> length src)"
  by (auto simp: stepped_def advanced_def split: sum.splits dest: deref_Inr_le)

lemma error_fresh_advanced:
  assumes "deref src (pos (s lx)) = Inr c" "c \<noteq> CHR 0x00" "pre_state lx = s lx"
  shows "advanced src lx (error src m lx)"
proof -
  from assms have lt: "pos (s lx) < length src" by (auto dest: deref_nonzero_less)
  then have "pos (s lx) \<le> length src" by simp
  then obtain lx1 where "s_advance src lx = (Inr (), lx1)" "pos (s lx1) = pos (s lx) + 1"
    by (rule s_advance_within)
  with assms lt show ?thesis
    by (simp add: error_def code_excerpt_def peek_def advanced_def)
qed

lemma next_token_stepped:
    "pos (s lx) \<le> length src \<Longrightarrow> stepped src lx (next_token src lx)"
  and divide_or_comment_advanced:
    "pos (s lx) \<le> length src \<Longrightarrow> advanced src lx (divide_or_comment src lx)"
  and comment_loop_advanced:
    "pos (s lx) \<le> length src \<Longrightarrow> advanced src lx (comment_loop src lx)"
proof (induction src lx and src lx and src lx
       rule: next_token_divide_or_comment_comment_loop.induct)
  case (1 src lx)
  from skip_whitespace_within [OF "1.prems"]
  obtain lx1 c where sw: "skip_whitespace src lx = (Inr (), lx1)"
    and mono: "pos (s lx) \<le> pos (s lx1)" and c: "deref src (pos (s lx1)) = Inr c" by blast
  define lx2 where "lx2 = lx1\<lparr>pre_state := s lx1\<rparr>"
  have p2: "pos (s lx2) = pos (s lx1)" and fresh: "pre_state lx2 = s lx2"
    by (simp_all add: lx2_def)
  from c p2 have pk: "peek src (s lx2) = Inr c" by (simp add: peek_def)
  from c have pk1: "peek src (s lx1) = Inr c" by (simp add: peek_def)
  from c p2 have le2: "pos (s lx2) \<le> length src" by (auto dest: deref_Inr_le)
  have unfold: "next_token src lx =
     (if c = CHR ''*'' then simply src OP_MULTIPLY lx2
      else if c = CHR ''%'' then simply src OP_MOD lx2
      else if c = CHR ''+'' then simply src OP_ADD lx2
      else if c = CHR ''-'' then simply src OP_SUBTRACT lx2
      else if c = CHR ''{'' then simply src LEFTBRACE lx2
      else if c = CHR ''}'' then simply src RIGHTBRACE lx2
      else if c = CHR ''('' then simply src LEFTPAREN lx2
      else if c = CHR '')'' then simply src RIGHTPAREN lx2
      else if c = CHR '';'' then simply src SEMICOLON lx2
      else if c = CHR '','' then simply src COMMA lx2
      else if c = CHR ''&'' then expect src (CHR ''&'') OP_AND lx2
      else if c = CHR ''|'' then expect src (CHR ''|'') OP_OR lx2
      else if c = CHR ''<'' then follow src (CHR ''='') OP_LESSEQUAL OP_LESS lx2
      else if c = CHR ''>'' then follow src (CHR ''='') OP_GREATEREQUAL OP_GREATER lx2
      else if c = CHR ''='' then follow src (CHR ''='') OP_EQUAL OP_ASSIGN lx2
      else if c = CHR ''!'' then follow src (CHR ''='') OP_NOTEQUAL OP_NOT lx2
      else if c = CHR ''/'' then divide_or_comment src lx2
      else if c = CHR 0x27 then char_lit src lx2
      else if c = CHR 0x22 then string_lit src lx2
      else if c = CHR 0x00 then (Inr (simple_token END_OF_INPUT lx2), lx2)
      else if is_id_start c then identifier_token src lx2
      else if is_digit c then integer_lit src lx2
      else error src (''Unrecognized character '' @ [CHR 0x27, c, CHR 0x27]) lx2)"
    by (subst next_token.simps) (simp add: sw pk1 lx2_def Let_def)
  show ?case
  proof (cases "c = CHR 0x00")
    case True
    with unfold have res: "next_token src lx = (Inr (simple_token END_OF_INPUT lx2), lx2)"
      by simp
    show ?thesis
    proof (cases "pos (s lx) < pos (s lx1)")
      case lt: True
      with le2 p2 show ?thesis by (simp add: res stepped_def advanced_def)
    next
      case False
      with mono have "pos (s lx1) = pos (s lx)" by simp
      with c True p2 show ?thesis
        by (simp add: res stepped_def simple_token_def)
    qed
  next
    case nz: False
    with c p2 have lt2: "pos (s lx2) < length src" by (auto dest: deref_nonzero_less)
    have up: "advanced src lx res" if "advanced src lx2 res" for res :: "(fault + Token) \<times> Lexer"
      using that by (rule advanced_trans) (simp add: p2 mono)
    have b1: "advanced src lx (simply src n lx2)" for n
      by (rule up) (rule simply_advanced [OF lt2])
    have b2: "advanced src lx (expect src e n lx2)" if "e \<noteq> CHR 0x00" for e n
      by (rule up) (rule expect_advanced [OF lt2 that])
    have b3: "advanced src lx (follow src e y n lx2)" if "e \<noteq> CHR 0x00" for e y n
      by (rule up) (rule follow_advanced [OF lt2 that])
    have b4: "advanced src lx (char_lit src lx2)"
      by (rule up) (rule char_lit_advanced [OF lt2])
    have b5: "advanced src lx (string_lit src lx2)"
      by (rule up) (rule string_lit_advanced [OF le2])
    have b6: "advanced src lx (identifier_token src lx2)"
      by (rule up) (rule identifier_token_advanced [OF le2])
    have b7: "advanced src lx (integer_lit src lx2)"
      by (rule up) (rule integer_lit_advanced [OF le2])
    have b8: "advanced src lx (error src m lx2)" for m
      by (rule up) (rule error_fresh_advanced [OF c [folded p2] nz fresh])
    have b9: "advanced src lx (divide_or_comment src lx2)" if "c = CHR ''/''"
      by (rule up) (use "1.IH" [OF sw [symmetric] refl lx2_def pk] that le2 in simp)
    from nz b1 b2 b3 b4 b5 b6 b7 b8 b9 show ?thesis
      unfolding unfold stepped_def by simp
  qed
next
  case (2 src lx)
  from "2.prems" obtain lx1 where nx: "s_next src lx = (deref src (pos (s lx) + 1), lx1)"
    and p1: "pos (s lx1) = pos (s lx) + 1" by (rule s_next_within)
  show ?case
  proof (cases "deref src (pos (s lx) + 1)")
    case (Inl e)
    with nx p1 "2.prems" show ?thesis
      by (subst divide_or_comment.simps) (simp add: advanced_def)
  next
    case (Inr c)
    with p1 have le: "pos (s lx1) \<le> length src" by (auto dest: deref_Inr_le)
    show ?thesis
    proof (cases "c = CHR ''*''")
      case False
      with Inr nx p1 le show ?thesis
        by (subst divide_or_comment.simps) (simp add: advanced_def)
    next
      case True
      have "advanced src lx1 (comment_loop src lx1)"
        using "2.IH" [OF nx [unfolded Inr, symmetric] refl] True le by simp
      then have "advanced src lx (comment_loop src lx1)"
        by (rule advanced_trans) (simp add: p1)
      with True Inr nx show ?thesis by (subst divide_or_comment.simps) simp
    qed
  qed
next
  case (3 src lx)
  from "3.prems" obtain lx1 where nx: "s_next src lx = (deref src (pos (s lx) + 1), lx1)"
    and p1: "pos (s lx1) = pos (s lx) + 1" by (rule s_next_within)
  show ?case
  proof (cases "deref src (pos (s lx) + 1)")
    case (Inl e)
    with nx p1 "3.prems" show ?thesis
      by (subst comment_loop.simps) (simp add: advanced_def)
  next
    case (Inr c)
    with p1 have le: "pos (s lx1) \<le> length src" by (auto dest: deref_Inr_le)
    consider (eof) "c = CHR 0x00" | (star) "c \<noteq> CHR 0x00" "c = CHR ''*''"
      | (other) "c \<noteq> CHR 0x00" "c \<noteq> CHR ''*''" by blast
    then show ?thesis
    proof cases
      case eof
      have "advanced src lx
              (error src ''End-of-file in comment. Closing comment characters not found.'' lx1)"
        using p1 le by (intro error_advanced) auto
      with eof Inr nx show ?thesis by (subst comment_loop.simps) simp
    next
      case other
      have "advanced src lx1 (comment_loop src lx1)"
        using "3.IH"(3) [OF nx [unfolded Inr, symmetric] refl] other le by simp
      then have "advanced src lx (comment_loop src lx1)"
        by (rule advanced_trans) (simp add: p1)
      with other Inr nx show ?thesis by (subst comment_loop.simps) simp
    next
      case star
      with Inr p1 have lt: "pos (s lx1) < length src" by (auto dest: deref_nonzero_less)
      from le obtain lx2 where nx2: "s_next src lx1 = (deref src (pos (s lx1) + 1), lx2)"
        and p2: "pos (s lx2) = pos (s lx1) + 1" by (rule s_next_within)
      from lt obtain d where d: "deref src (pos (s lx1) + 1) = Inr d"
        using deref_within [of "pos (s lx1) + 1" src] by auto
      from lt p2 have le2: "pos (s lx2) \<le> length src" by simp
      show ?thesis
      proof (cases "d = CHR ''/''")
        case False
        have "advanced src lx2 (comment_loop src lx2)"
          using "3.IH"(2) [OF nx [unfolded Inr, symmetric] refl _ _ nx2 [unfolded d, symmetric] refl]
            star False le2 by simp
        then have "advanced src lx (comment_loop src lx2)"
          by (rule advanced_trans) (simp add: p1 p2)
        with star False Inr nx nx2 d show ?thesis by (subst comment_loop.simps) simp
      next
        case True
        with d p2 have lt2: "pos (s lx2) < length src" by (auto dest: deref_nonzero_less)
        from le2 obtain lx3 where adv: "s_advance src lx2 = (Inr (), lx3)"
          and p3: "pos (s lx3) = pos (s lx2) + 1" by (rule s_advance_within)
        from lt2 p3 have le3: "pos (s lx3) \<le> length src" by simp
        have "stepped src lx3 (next_token src lx3)"
          using "3.IH"(1) [OF nx [unfolded Inr, symmetric] refl _ _ nx2 [unfolded d, symmetric] refl
              _ adv [symmetric] refl] star True le3 by simp
        then have "advanced src lx (next_token src lx3)"
          using stepped_bounds [of src lx3 "fst (next_token src lx3)" "snd (next_token src lx3)"]
            p1 p2 p3 by (simp add: advanced_def)
        with star True Inr nx nx2 d adv show ?thesis by (subst comment_loop.simps) simp
      qed
    qed
  qed
qed

section \<open>Driver\<close>

text \<open>
  The loop of the function that \<^verbatim>\<open>main\<close> hands to \<^verbatim>\<open>with_IO\<close>:
  \<^verbatim>\<open>while (lexer.has_more()) tokens.push_back(lexer.next_token())\<close>. A fault ends the
  run. The loop ends because every call made under \<^verbatim>\<open>has_more\<close> moves the cursor
  forward inside the array.
\<close>

function collect :: "string \<Rightarrow> Lexer \<Rightarrow> Token list \<Rightarrow> fault + Token list" where
  "collect src lx tokens =
     (case has_more src lx of
        Inl e \<Rightarrow> Inl e
      | Inr has \<Rightarrow>
          if has then
            (case next_token src lx of
               (Inl e, lx') \<Rightarrow> Inl e
             | (Inr t, lx') \<Rightarrow> collect src lx' (tokens @ [t]))
          else Inr tokens)"
  by pat_completeness auto
termination
proof (relation "measure (\<lambda>(src, lx, tokens). length src + 1 - pos (s lx))", goal_cases)
  case 1
  show ?case by simp
next
  case (2 src lx tokens has r lx' t)
  from 2(1) 2(2) obtain c where c: "deref src (pos (s lx)) = Inr c" "c \<noteq> CHR 0x00"
    by (auto simp: has_more_def peek_def split: sum.splits)
  then have "pos (s lx) \<le> length src" by (auto dest: deref_Inr_le)
  from next_token_stepped [OF this] 2(3) [symmetric] 2(4) c
  have "pos (s lx) < pos (s lx')" "pos (s lx') \<le> length src"
    by (auto simp: stepped_def advanced_def)
  then show ?case by simp
qed

declare collect.simps [simp del]

text \<open>
  \<^verbatim>\<open>Lexer lexer {input}; vector<Token> tokens;\<close> and the loop: the tokens of a source,
  and the table that the program writes for it.
\<close>

definition main_tokens :: "string \<Rightarrow> fault + Token list" where
  "main_tokens input = collect input Lexer_init []"

definition main_output :: "string \<Rightarrow> fault + string" where
  "main_output input =
     (case main_tokens input of
        Inl e \<Rightarrow> Inl e
      | Inr tokens \<Rightarrow> Inr (list_tokens tokens))"

text \<open>The names of the tokens of a run, none when the run ended in a fault.\<close>

definition names_of :: "fault + Token list \<Rightarrow> TokenName list" where
  "names_of run = (case run of Inl e \<Rightarrow> [] | Inr tokens \<Rightarrow> map name tokens)"

text \<open>
  Where the source holds a whitespace character, where a block comment opens, and
  where the cursor stands directly behind a whitespace character or behind the two
  characters that close a block comment.
\<close>

definition space_at :: "string \<Rightarrow> nat \<Rightarrow> bool" where
  "space_at src q = (q < length src \<and> isspace (src ! q))"

definition comment_open_at :: "string \<Rightarrow> nat \<Rightarrow> bool" where
  "comment_open_at src q = (q + 1 < length src \<and> src ! q = CHR ''/'' \<and> src ! (q + 1) = CHR ''*'')"

definition comment_close_before :: "string \<Rightarrow> nat \<Rightarrow> bool" where
  "comment_close_before src p =
     (2 \<le> p \<and> p \<le> length src \<and> src ! (p - 2) = CHR ''*'' \<and> src ! (p - 1) = CHR ''/'')"

definition blank_or_comment_before :: "string \<Rightarrow> nat \<Rightarrow> bool" where
  "blank_or_comment_before src p = (0 < p \<and> (space_at src (p - 1) \<or> comment_close_before src p))"

text \<open>The number of lines of a text: the number of its newline characters.\<close>

definition line_count :: "string \<Rightarrow> nat" where
  "line_count str = length (filter (\<lambda>c. c = CHR 0x0A) str)"

section \<open>Facts about the driver and the renderer\<close>

text \<open>The driver collects at most one token per character of the source.\<close>

lemma collect_length:
  "pos (s lx) \<le> length src \<Longrightarrow> collect src lx acc = Inr ts \<Longrightarrow>
     length ts + pos (s lx) \<le> length acc + length src"
proof (induction src lx acc rule: collect.induct)
  case (1 src lx acc)
  from "1.prems"(1) obtain c where c: "deref src (pos (s lx)) = Inr c"
    using deref_within [of "pos (s lx)" src] by auto
  show ?case
  proof (cases "c = CHR 0x00")
    case True
    with c "1.prems" show ?thesis
      by (subst (asm) collect.simps) (auto simp: has_more_def peek_def)
  next
    case False
    with c have hm: "has_more src lx = Inr True" by (simp add: has_more_def peek_def)
    obtain r lx' where nt: "next_token src lx = (r, lx')" by (cases "next_token src lx")
    with "1.prems"(2) hm obtain t where r: "r = Inr t" and rest: "collect src lx' (acc @ [t]) = Inr ts"
      by (subst (asm) collect.simps) (auto split: sum.splits)
    from next_token_stepped [OF "1.prems"(1)] nt r c False
    have adv: "pos (s lx) < pos (s lx')" "pos (s lx') \<le> length src"
      by (auto simp: stepped_def advanced_def)
    from "1.IH" [OF hm TrueI nt [symmetric] r adv(2) rest] adv show ?thesis by simp
  qed
qed

text \<open>The kinds of token each scanning function can return.\<close>

lemma simply_name: "simply src n lx = (Inr t, lx') \<Longrightarrow> name t = n"
  by (auto simp: simply_def simple_token_def split: prod.splits sum.splits)

lemma expect_name:
  "expect src e n lx = (Inr t, lx') \<Longrightarrow> name t = n \<or> name t = ERROR"
  by (auto simp: expect_def split: prod.splits sum.splits if_splits
           dest: simply_name error_name)

lemma follow_name:
  "follow src e y n lx = (Inr t, lx') \<Longrightarrow> name t = y \<or> name t = n"
  by (auto simp: follow_def simple_token_def split: prod.splits sum.splits if_splits
           dest: simply_name)

lemma char_lit_end_name:
  "char_lit_end src n lx = (Inr t, lx') \<Longrightarrow> name t = INTEGER \<or> name t = ERROR"
  by (auto simp: char_lit_end_def split: prod.splits sum.splits if_splits dest: error_name)

lemma char_lit_name:
  "char_lit src lx = (Inr t, lx') \<Longrightarrow> name t = INTEGER \<or> name t = ERROR"
  by (auto simp: char_lit_def split: prod.splits sum.splits if_splits
           dest: error_name char_lit_end_name)

lemma string_lit_loop_name:
  "string_lit_loop src acc lx = (Inr t, lx') \<Longrightarrow> name t = STRING \<or> name t = ERROR"
proof (induction src acc lx rule: string_lit_loop.induct)
  case (1 src acc lx)
  from "1.prems" show ?case
    apply (subst (asm) string_lit_loop.simps)
    apply (auto split: prod.splits sum.splits if_splits dest: error_name)
    using "1.IH" apply fastforce+
    done
qed

lemma Lexer_keywords_range:
  "Lexer_keywords w = Some k \<Longrightarrow>
     k \<in> {KEYWORD_ELSE, KEYWORD_IF, KEYWORD_PRINT, KEYWORD_PUTC, KEYWORD_WHILE}"
  by (auto simp: Lexer_keywords_def split: if_splits)

lemma identifier_token_name:
  "identifier_token src lx = (Inr t, lx') \<Longrightarrow> name t \<noteq> END_OF_INPUT"
  by (auto simp: identifier_token_def split: prod.splits sum.splits option.splits
           dest!: Lexer_keywords_range)

lemma integer_lit_name:
  "integer_lit src lx = (Inr t, lx') \<Longrightarrow> name t = INTEGER \<or> name t = ERROR"
  by (auto simp: integer_lit_def split: prod.splits sum.splits if_splits stol_error.splits
           dest: error_name)

text \<open>
  When \<^verbatim>\<open>next_token\<close> returns the end-of-input token, the cursor is on a null character;
  unless the call found it there, the call began on whitespace or on the opening of a
  comment, and ends behind whitespace or behind the closing of a comment.
\<close>

lemma deref_char: "deref src p = Inr c \<Longrightarrow> c \<noteq> CHR 0x00 \<Longrightarrow> p < length src \<and> src ! p = c"
  by (auto simp: deref_def split: if_splits)

lemma skip_whitespace_ends:
  assumes "pos (s lx) \<le> length src" "skip_whitespace src lx = (r, lx1)"
  shows "pos (s lx1) = pos (s lx) \<or> (space_at src (pos (s lx)) \<and> space_at src (pos (s lx1) - 1))"
proof -
  from assms(1) obtain c where c: "peek src (s lx) = Inr c"
    using deref_within [of "pos (s lx)" src] by (auto simp: peek_def)
  show ?thesis
  proof (cases "isspace c")
    case False
    with c assms(2) show ?thesis by (subst (asm) skip_whitespace.simps) simp
  next
    case True
    then have "c \<noteq> CHR 0x00" by (auto simp: isspace_def)
    with c True have st: "space_at src (pos (s lx))"
      by (auto simp: peek_def space_at_def dest: deref_char)
    from skip_whitespace_within [OF assms(1)] assms(2)
    obtain d where d: "deref src (pos (s lx1)) = Inr d" "pos (s lx) \<le> pos (s lx1)"
      and sp: "pos (s lx1) = pos (s lx) \<or> isspace (src ! (pos (s lx1) - 1))" by auto
    from d have "pos (s lx1) \<le> length src" by (auto dest: deref_Inr_le)
    with sp d(2) st show ?thesis by (auto simp: space_at_def)
  qed
qed

lemma next_token_eoi:
    "pos (s lx) \<le> length src \<Longrightarrow> next_token src lx = (Inr t, lx') \<Longrightarrow> name t = END_OF_INPUT \<Longrightarrow>
       deref src (pos (s lx')) = Inr (CHR 0x00) \<and>
       (pos (s lx') = pos (s lx) \<or>
        (space_at src (pos (s lx)) \<or> comment_open_at src (pos (s lx))) \<and>
        (space_at src (pos (s lx') - 1) \<or> comment_close_before src (pos (s lx'))))"
  and divide_or_comment_eoi:
    "pos (s lx) \<le> length src \<Longrightarrow> divide_or_comment src lx = (Inr t, lx') \<Longrightarrow>
     name t = END_OF_INPUT \<Longrightarrow>
       deref src (pos (s lx')) = Inr (CHR 0x00) \<and> deref src (pos (s lx) + 1) = Inr (CHR ''*'') \<and>
       (space_at src (pos (s lx') - 1) \<or> comment_close_before src (pos (s lx')))"
  and comment_loop_eoi:
    "pos (s lx) \<le> length src \<Longrightarrow> comment_loop src lx = (Inr t, lx') \<Longrightarrow>
     name t = END_OF_INPUT \<Longrightarrow>
       deref src (pos (s lx')) = Inr (CHR 0x00) \<and>
       (space_at src (pos (s lx') - 1) \<or> comment_close_before src (pos (s lx')))"
proof (induction src lx and src lx and src lx arbitrary: t lx' and t lx' and t lx'
       rule: next_token_divide_or_comment_comment_loop.induct)
  case (1 src lx)
  from skip_whitespace_within [OF "1.prems"(1)]
  obtain lx1 c where sw: "skip_whitespace src lx = (Inr (), lx1)"
    and mono: "pos (s lx) \<le> pos (s lx1)" and c: "deref src (pos (s lx1)) = Inr c" by blast
  note ends = skip_whitespace_ends [OF "1.prems"(1) sw]
  define lx2 where "lx2 = lx1\<lparr>pre_state := s lx1\<rparr>"
  have p2: "pos (s lx2) = pos (s lx1)" by (simp add: lx2_def)
  from c p2 have pk: "peek src (s lx2) = Inr c" by (simp add: peek_def)
  from c have pk1: "peek src (s lx1) = Inr c" by (simp add: peek_def)
  from c p2 have le2: "pos (s lx2) \<le> length src" by (auto dest: deref_Inr_le)
  have unfold: "next_token src lx =
     (if c = CHR ''*'' then simply src OP_MULTIPLY lx2
      else if c = CHR ''%'' then simply src OP_MOD lx2
      else if c = CHR ''+'' then simply src OP_ADD lx2
      else if c = CHR ''-'' then simply src OP_SUBTRACT lx2
      else if c = CHR ''{'' then simply src LEFTBRACE lx2
      else if c = CHR ''}'' then simply src RIGHTBRACE lx2
      else if c = CHR ''('' then simply src LEFTPAREN lx2
      else if c = CHR '')'' then simply src RIGHTPAREN lx2
      else if c = CHR '';'' then simply src SEMICOLON lx2
      else if c = CHR '','' then simply src COMMA lx2
      else if c = CHR ''&'' then expect src (CHR ''&'') OP_AND lx2
      else if c = CHR ''|'' then expect src (CHR ''|'') OP_OR lx2
      else if c = CHR ''<'' then follow src (CHR ''='') OP_LESSEQUAL OP_LESS lx2
      else if c = CHR ''>'' then follow src (CHR ''='') OP_GREATEREQUAL OP_GREATER lx2
      else if c = CHR ''='' then follow src (CHR ''='') OP_EQUAL OP_ASSIGN lx2
      else if c = CHR ''!'' then follow src (CHR ''='') OP_NOTEQUAL OP_NOT lx2
      else if c = CHR ''/'' then divide_or_comment src lx2
      else if c = CHR 0x27 then char_lit src lx2
      else if c = CHR 0x22 then string_lit src lx2
      else if c = CHR 0x00 then (Inr (simple_token END_OF_INPUT lx2), lx2)
      else if is_id_start c then identifier_token src lx2
      else if is_digit c then integer_lit src lx2
      else error src (''Unrecognized character '' @ [CHR 0x27, c, CHR 0x27]) lx2)"
    by (subst next_token.simps) (simp add: sw pk1 lx2_def Let_def)
  consider (eoi) "c = CHR 0x00" | (slash) "c = CHR ''/''" | (other) "c \<noteq> CHR 0x00" "c \<noteq> CHR ''/''"
    by blast
  then show ?case
  proof cases
    case eoi
    with "1.prems"(2) [unfolded unfold] have "lx' = lx2" by simp
    with eoi c p2 ends show ?thesis by auto
  next
    case other
    with "1.prems"(2) [unfolded unfold] "1.prems"(3) have False
      by (auto simp: string_lit_def split: if_splits
               dest: simply_name expect_name follow_name char_lit_name string_lit_loop_name
                     identifier_token_name integer_lit_name error_name)
    then show ?thesis ..
  next
    case slash
    with "1.prems"(2) [unfolded unfold] have doc: "divide_or_comment src lx2 = (Inr t, lx')"
      by simp
    from "1.IH" [OF sw [symmetric] refl lx2_def pk _ _ _ _ _ _ _ _ _ _ _ _ _ _ _ _ slash le2 doc
        "1.prems"(3)] slash
    have *: "deref src (pos (s lx')) = Inr (CHR 0x00)"
      "deref src (pos (s lx2) + 1) = Inr (CHR ''*'')"
      "space_at src (pos (s lx') - 1) \<or> comment_close_before src (pos (s lx'))"
      by simp_all
    from c slash p2 *(2) have "comment_open_at src (pos (s lx1))"
      by (auto simp: comment_open_at_def dest!: deref_char)
    with ends have "space_at src (pos (s lx)) \<or> comment_open_at src (pos (s lx))" by auto
    with * show ?thesis by simp
  qed
next
  case (2 src lx)
  from "2.prems"(1) obtain lx1 where nx: "s_next src lx = (deref src (pos (s lx) + 1), lx1)"
    and p1: "pos (s lx1) = pos (s lx) + 1" by (rule s_next_within)
  from "2.prems"(2) nx obtain c where c: "deref src (pos (s lx) + 1) = Inr c"
    by (subst (asm) divide_or_comment.simps) (auto split: sum.splits)
  with p1 have le: "pos (s lx1) \<le> length src" by (auto dest: deref_Inr_le)
  from "2.prems"(2,3) nx c have star: "c = CHR ''*''"
    by (subst (asm) divide_or_comment.simps) (auto simp: simple_token_def split: if_splits)
  with "2.prems"(2) nx c have "comment_loop src lx1 = (Inr t, lx')"
    by (subst (asm) divide_or_comment.simps) simp
  from "2.IH" [OF nx [unfolded c, symmetric] refl _ le this "2.prems"(3)] star c
  show ?case by simp
next
  case (3 src lx)
  from "3.prems"(1) obtain lx1 where nx: "s_next src lx = (deref src (pos (s lx) + 1), lx1)"
    and p1: "pos (s lx1) = pos (s lx) + 1" by (rule s_next_within)
  from "3.prems"(2) nx obtain c where c: "deref src (pos (s lx) + 1) = Inr c"
    by (subst (asm) comment_loop.simps) (auto split: sum.splits)
  with p1 have le: "pos (s lx1) \<le> length src" by (auto dest: deref_Inr_le)
  from "3.prems"(2,3) nx c have nz: "c \<noteq> CHR 0x00"
    by (subst (asm) comment_loop.simps) (auto split: if_splits dest: error_name)
  show ?case
  proof (cases "c = CHR ''*''")
    case False
    with "3.prems"(2) nx c nz have "comment_loop src lx1 = (Inr t, lx')"
      by (subst (asm) comment_loop.simps) simp
    from "3.IH"(3) [OF nx [unfolded c, symmetric] refl nz False le this "3.prems"(3)]
    show ?thesis .
  next
    case True
    with c nz p1 have lt: "pos (s lx1) < length src" and c1: "src ! pos (s lx1) = CHR ''*''"
      by (auto dest: deref_char)
    from le obtain lx2 where nx2: "s_next src lx1 = (deref src (pos (s lx1) + 1), lx2)"
      and p2: "pos (s lx2) = pos (s lx1) + 1" by (rule s_next_within)
    from lt obtain d where d: "deref src (pos (s lx1) + 1) = Inr d"
      using deref_within [of "pos (s lx1) + 1" src] by auto
    from lt p2 have le2: "pos (s lx2) \<le> length src" by simp
    show ?thesis
    proof (cases "d = CHR ''/''")
      case False
      with "3.prems"(2) nx c nz True nx2 d have "comment_loop src lx2 = (Inr t, lx')"
        by (subst (asm) comment_loop.simps) simp
      from "3.IH"(2) [OF nx [unfolded c, symmetric] refl nz True nx2 [unfolded d, symmetric] refl
          False le2 this "3.prems"(3)]
      show ?thesis .
    next
      case slash: True
      with d p2 have lt2: "pos (s lx2) < length src" and c2: "src ! pos (s lx2) = CHR ''/''"
        by (auto dest: deref_char)
      from le2 obtain lx3 where adv: "s_advance src lx2 = (Inr (), lx3)"
        and p3: "pos (s lx3) = pos (s lx2) + 1" by (rule s_advance_within)
      from lt2 p3 have le3: "pos (s lx3) \<le> length src" by simp
      from "3.prems"(2) nx c nz True nx2 d slash adv have nt: "next_token src lx3 = (Inr t, lx')"
        by (subst (asm) comment_loop.simps) simp
      from "3.IH"(1) [OF nx [unfolded c, symmetric] refl nz True nx2 [unfolded d, symmetric] refl
          slash adv [symmetric] refl le3 nt "3.prems"(3)]
      have *: "deref src (pos (s lx')) = Inr (CHR 0x00)"
        "pos (s lx') = pos (s lx3) \<or>
         (space_at src (pos (s lx') - 1) \<or> comment_close_before src (pos (s lx')))"
        by auto
      have "comment_close_before src (pos (s lx3))"
        using p2 p3 c1 c2 le3 by (simp add: comment_close_before_def)
      with * show ?thesis by auto
    qed
  qed
qed

lemma next_token_eoi_has_more:
  assumes "pos (s lx) \<le> length src" "has_more src lx = Inr True"
    "next_token src lx = (Inr t, lx')" "name t = END_OF_INPUT"
  shows "(space_at src (pos (s lx)) \<or> comment_open_at src (pos (s lx))) \<and>
         has_more src lx' = Inr False \<and> blank_or_comment_before src (pos (s lx'))"
proof -
  from assms(2) obtain c where c: "deref src (pos (s lx)) = Inr c" "c \<noteq> CHR 0x00"
    by (auto simp: has_more_def peek_def split: sum.splits)
  from next_token_eoi [OF assms(1,3,4)]
  have z: "deref src (pos (s lx')) = Inr (CHR 0x00)"
    and alt: "pos (s lx') = pos (s lx) \<or>
        (space_at src (pos (s lx)) \<or> comment_open_at src (pos (s lx))) \<and>
        (space_at src (pos (s lx') - 1) \<or> comment_close_before src (pos (s lx')))" by auto
  from z c have ne: "pos (s lx') \<noteq> pos (s lx)" by auto
  from next_token_stepped [OF assms(1)] assms(3) have "pos (s lx) \<le> pos (s lx')"
    by (auto dest: stepped_bounds)
  with ne have "0 < pos (s lx')" by simp
  with alt ne z show ?thesis
    by (simp add: blank_or_comment_before_def has_more_def peek_def)
qed

lemma collect_eoi:
  "pos (s lx) \<le> length src \<Longrightarrow> collect src lx acc = Inr ts \<Longrightarrow>
   END_OF_INPUT \<in> set (map name ts) \<Longrightarrow>
     END_OF_INPUT \<in> set (map name acc) \<or>
     (\<exists>p. deref src p = Inr (CHR 0x00) \<and> blank_or_comment_before src p)"
proof (induction src lx acc rule: collect.induct)
  case (1 src lx acc)
  from "1.prems"(1) obtain c where c: "deref src (pos (s lx)) = Inr c"
    using deref_within [of "pos (s lx)" src] by auto
  show ?case
  proof (cases "c = CHR 0x00")
    case True
    with c "1.prems"(2) have "ts = acc"
      by (subst (asm) collect.simps) (auto simp: has_more_def peek_def)
    with "1.prems"(3) show ?thesis by simp
  next
    case False
    with c have hm: "has_more src lx = Inr True" by (simp add: has_more_def peek_def)
    obtain r lx' where nt: "next_token src lx = (r, lx')" by (cases "next_token src lx")
    with "1.prems"(2) hm obtain t where r: "r = Inr t"
      and rest: "collect src lx' (acc @ [t]) = Inr ts"
      by (subst (asm) collect.simps) (auto split: sum.splits)
    from next_token_stepped [OF "1.prems"(1)] nt r
    have le': "pos (s lx') \<le> length src" by (auto dest: stepped_bounds)
    from "1.IH" [OF hm TrueI nt [symmetric] r le' rest "1.prems"(3)]
    consider "END_OF_INPUT \<in> set (map name acc)" | "name t = END_OF_INPUT"
      | "\<exists>p. deref src p = Inr (CHR 0x00) \<and> blank_or_comment_before src p" by auto
    then show ?thesis
    proof cases
      case 2
      from next_token_eoi_has_more [OF "1.prems"(1) hm nt [unfolded r] 2]
      have "has_more src lx' = Inr False" "blank_or_comment_before src (pos (s lx'))" by auto
      then have "deref src (pos (s lx')) = Inr (CHR 0x00) \<and> blank_or_comment_before src (pos (s lx'))"
        by (auto simp: has_more_def peek_def split: sum.splits)
      then show ?thesis by blast
    qed auto
  qed
qed

text \<open>
  The lines that the renderer writes for a token: the numbers, the labels and the
  escaped text of a string token hold no newline character; the text of an integer,
  identifier or error token is written as it is.
\<close>

lemma line_count_append [simp]: "line_count (xs @ ys) = line_count xs + line_count ys"
  by (simp add: line_count_def)

lemma line_count_Nil [simp]: "line_count [] = 0"
  by (simp add: line_count_def)

lemma line_count_Cons [simp]:
  "line_count (c # cs) = (if c = CHR 0x0A then 1 else 0) + line_count cs"
  by (simp add: line_count_def)

lemma line_count_replicate_blank [simp]: "line_count (replicate n (CHR '' '')) = 0"
  by (induction n) simp_all

lemma line_count_replicate_dash [simp]: "line_count (replicate n (CHR ''-'')) = 0"
  by (induction n) simp_all

lemma digit_char_not_newline: "n < 10 \<Longrightarrow> char_of (48 + n) \<noteq> CHR 0x0A" for n :: nat
proof
  assume n: "n < 10" and eq: "char_of (48 + n) = CHR 0x0A"
  from eq have "of_char (char_of (48 + n)) = (of_char (CHR 0x0A) :: nat)" by simp
  with n show False by (simp add: of_char_of)
qed

lemma line_count_digits [simp]: "line_count (digits n) = 0"
proof (induction n rule: digits.induct)
  case (1 n)
  show ?case
  proof (cases "n < 10")
    case True
    then show ?thesis by (subst digits.simps) (simp add: digit_char_not_newline)
  next
    case False
    have "n mod 10 < 10" by simp
    with False "1.IH" show ?thesis
      by (subst digits.simps) (simp add: digit_char_not_newline)
  qed
qed

lemma line_count_to_string_int [simp]: "line_count (to_string_int i) = 0"
  by (simp add: to_string_int_def)

lemma line_count_setw2 [simp]: "line_count (setw2 i) = 0"
  by (simp add: setw2_def)

lemma line_count_sanitize [simp]: "line_count (sanitize str) = 0"
  by (induction str) simp_all

lemma line_count_to_string_Token:
  "line_count (to_string_Token t) =
     (if name t = INTEGER \<or> name t = IDENTIFIER \<or> name t = ERROR
      then 1 + line_count (to_string_TokenVal (val t)) else 1)"
  by (cases "name t") (simp_all add: to_string_Token_def)

lemma line_count_concat:
  "line_count (concat xss) = sum_list (map line_count xss)"
  by (induction xss) simp_all

lemma error_message_newline:
  "error src m lx = (Inr t, lx') \<Longrightarrow> name t = ERROR \<and> 1 \<le> line_count (to_string_TokenVal (val t))"
  by (auto simp: error_def Let_def split: sum.splits if_splits prod.splits)

lemma foldl_append_concat:
  "foldl (\<lambda>acc t. acc @ f t) a xs = a @ concat (map f xs)"
  by (induction xs arbitrary: a) simp_all

lemma dashes_38: "''--------------------------------------'' = replicate 38 (CHR ''-'')"
  by code_simp

section \<open>The claims\<close>

text \<open>
  C1. For every source and every cursor inside its array, a call of \<^verbatim>\<open>next_token\<close>
  leaves the cursor strictly further on, or it returns the end-of-input token and the
  cursor stood on a null character. The cursor stays inside the array when a token is
  returned, and is one element behind the terminator at most when the call faults. So
  each call the driver makes under \<^verbatim>\<open>has_more\<close> uses up at least one character: the
  driver, a total function, returns at most as many tokens as the source has characters.
\<close>

theorem next_token_advances_or_end:
  assumes "pos (s lx) \<le> length src"
  shows "(pos (s lx) < pos (s (snd (next_token src lx)))
          \<or> (\<exists>t. fst (next_token src lx) = Inr t \<and> name t = END_OF_INPUT
                  \<and> peek src (s lx) = Inr (CHR 0x00)))
         \<and> pos (s (snd (next_token src lx)))
             \<le> (case fst (next_token src lx) of Inl e \<Rightarrow> length src + 1 | Inr t \<Rightarrow> length src)
         \<and> (\<forall>ts. main_tokens src = Inr ts \<longrightarrow> length ts \<le> length src)"
proof -
  obtain r lx' where nt: "next_token src lx = (r, lx')" by (cases "next_token src lx")
  from next_token_stepped [OF assms] nt have st: "stepped src lx (r, lx')" by simp
  then have "pos (s lx) < pos (s lx')
             \<or> (\<exists>t. r = Inr t \<and> name t = END_OF_INPUT \<and> peek src (s lx) = Inr (CHR 0x00))"
    by (auto simp: stepped_def advanced_def peek_def split: sum.splits)
  moreover from stepped_bounds [OF st]
  have "pos (s lx') \<le> (case r of Inl e \<Rightarrow> length src + 1 | Inr t \<Rightarrow> length src)" by simp
  moreover have "length ts \<le> length src" if "main_tokens src = Inr ts" for ts
    using collect_length [of Lexer_init src "[]" ts] that
    by (simp add: main_tokens_def Lexer_init_def Scanner_init_def)
  ultimately show ?thesis by (simp add: nt)
qed

theorem next_token_advances_or_end_witness:
  "pos (s Lexer_init) \<le> length ''1 + 2;''
   \<and> pos (s (snd (next_token ''1 + 2;'' Lexer_init))) \<le> length ''1 + 2;''
   \<and> (pos (s Lexer_init) < pos (s (snd (next_token ''1 + 2;'' Lexer_init)))
      \<or> (\<exists>t. fst (next_token ''1 + 2;'' Lexer_init) = Inr t \<and> name t = END_OF_INPUT
              \<and> peek ''1 + 2;'' (s Lexer_init) = Inr (CHR 0x00)))"
proof -
  have h: "pos (s Lexer_init) \<le> length ''1 + 2;''"
    by (simp add: Lexer_init_def Scanner_init_def)
  have r: "fst (next_token ''1 + 2;'' Lexer_init) =
             Inr \<lparr>name = INTEGER, val = IntVal 1, line = 1, column = 1\<rparr>"
    by code_simp
  from next_token_advances_or_end [OF h] h r show ?thesis by simp
qed

text \<open>
  C2. The claim is that no operation reads the source array behind its terminating
  null character, in particular not for a lone quote at the end of the input. For the
  source that is one single quote, \<^verbatim>\<open>char_lit\<close> steps onto the terminator, takes it for
  the character of the literal, and its second \<^verbatim>\<open>s.next()\<close> steps over the terminator
  and reads index 2 of an array whose last index is 1.
\<close>

theorem char_lit_reads_past_terminator:
  "next_token [CHR 0x27] Lexer_init =
     (Inl OutOfBounds,
      \<lparr>s = \<lparr>pos = 2, line = 1, col = 3\<rparr>, pre_state = \<lparr>pos = 0, line = 1, col = 1\<rparr>\<rparr>)
   \<and> deref [CHR 0x27] 1 = Inr (CHR 0x00)
   \<and> deref [CHR 0x27] 2 = Inl OutOfBounds
   \<and> main_tokens [CHR 0x27] = Inl OutOfBounds"
  by code_simp

text \<open>
  C3. The claim is that a digit run above the range of the 32-bit integer of a token
  gives the error "Number exceeds maximum value". The digit run \<^verbatim>\<open>2147483648\<close>, one
  above the largest 32-bit value, is inside the range of \<^verbatim>\<open>long\<close>, so \<^verbatim>\<open>stol\<close> returns
  it, and the token stores it reduced to \<open>- 2147483648\<close>.
\<close>

theorem integer_lit_stores_wrapped_value:
  "main_tokens ''2147483648'' =
     Inr [\<lparr>name = INTEGER, val = IntVal (- 2147483648), line = 1, column = 1\<rparr>]
   \<and> dec_value ''2147483648'' = 2147483648
   \<and> stol ''2147483648'' = Inr 2147483648"
  by code_simp

text \<open>
  C4. The claim is that \<^verbatim>\<open>&x\<close> gives an error token and then the identifier \<^verbatim>\<open>x\<close>.
  No identifier token is produced: \<^verbatim>\<open>expect\<close> steps onto the \<^verbatim>\<open>x\<close>, reports it as the
  unrecognized character, and \<^verbatim>\<open>error\<close> steps over it.
\<close>

theorem amp_x_no_identifier:
  "names_of (main_tokens ''&x'') = [ERROR]
   \<and> IDENTIFIER \<notin> set (names_of (main_tokens ''&x''))"
  by code_simp

text \<open>
  C4, as the program behaves: \<^verbatim>\<open>&x\<close> gives exactly one token, the error
  "Unrecognized character 'x'" at line 1, column 1, with the excerpt \<^verbatim>\<open>&\<close>; the call
  that returns it leaves the cursor on the terminator, at offset 2.
\<close>

theorem amp_x_tokens:
  "main_tokens ''&x'' =
     Inr [\<lparr>name = ERROR,
           val = StrVal (''Unrecognized character '' @ [CHR 0x27, CHR ''x'', CHR 0x27, CHR 0x0A] @
                         replicate 28 (CHR '' '') @ ''(1, 2): &''),
           line = 1, column = 1\<rparr>]
   \<and> pos (s (snd (next_token ''&x'' Lexer_init))) = 2"
  by code_simp

text \<open>
  C5. The claim is that \<^verbatim>\<open>123abc\<close> gives exactly one error token and that the call
  uses up the digits and all the letters. The call stops at offset 4, not at the end of
  the run at offset 6, and the driver collects a second token.
\<close>

theorem invalid_number_not_whole_run:
  "names_of (main_tokens ''123abc'') \<noteq> [ERROR]
   \<and> pos (s (snd (next_token ''123abc'' Lexer_init))) \<noteq> 6"
  by code_simp

text \<open>
  C5, as the program behaves: \<^verbatim>\<open>123abc\<close> gives the error "Invalid number. ..." at
  line 1, column 1, with the excerpt \<^verbatim>\<open>123\<close>; the call uses up the digits and one
  letter; the identifier \<^verbatim>\<open>bc\<close> at line 1, column 5 follows.
\<close>

theorem invalid_number_tokens:
  "main_tokens ''123abc'' =
     Inr [\<lparr>name = ERROR,
           val = StrVal (''Invalid number. Starts like a number, but ends in non-numeric characters.'' @
                         [CHR 0x0A] @ replicate 28 (CHR '' '') @ ''(1, 4): 123''),
           line = 1, column = 1\<rparr>,
          \<lparr>name = IDENTIFIER, val = StrVal ''bc'', line = 1, column = 5\<rparr>]
   \<and> pos (s (snd (next_token ''123abc'' Lexer_init))) = 4"
  by code_simp

text \<open>
  C6. The claim is that \<^verbatim>\<open>1 + 2;\<close> gives the integer 1 at (1,1), \<^verbatim>\<open>Op_add\<close> at (1,3),
  the integer 2 at (1,5), the semicolon at (1,6) and the end of input at (1,7). The
  driver collects the first four and stops: in the state that the fourth call leaves,
  behind the semicolon, \<^verbatim>\<open>has_more\<close> is false, and the call of \<^verbatim>\<open>next_token\<close> that
  would return the end-of-input token at (1,7) is never made.
\<close>

theorem one_plus_two_tokens:
  "main_tokens ''1 + 2;'' =
     Inr [\<lparr>name = INTEGER, val = IntVal 1, line = 1, column = 1\<rparr>,
          \<lparr>name = OP_ADD, val = IntVal 0, line = 1, column = 3\<rparr>,
          \<lparr>name = INTEGER, val = IntVal 2, line = 1, column = 5\<rparr>,
          \<lparr>name = SEMICOLON, val = IntVal 0, line = 1, column = 6\<rparr>]
   \<and> snd (next_token ''1 + 2;'' (snd (next_token ''1 + 2;'' (snd (next_token ''1 + 2;''
         (snd (next_token ''1 + 2;'' Lexer_init))))))) =
       \<lparr>s = \<lparr>pos = 6, line = 1, col = 7\<rparr>, pre_state = \<lparr>pos = 5, line = 1, col = 6\<rparr>\<rparr>
   \<and> has_more ''1 + 2;'' \<lparr>s = \<lparr>pos = 6, line = 1, col = 7\<rparr>,
                            pre_state = \<lparr>pos = 5, line = 1, col = 6\<rparr>\<rparr> = Inr False
   \<and> fst (next_token ''1 + 2;'' \<lparr>s = \<lparr>pos = 6, line = 1, col = 7\<rparr>,
                                   pre_state = \<lparr>pos = 5, line = 1, col = 6\<rparr>\<rparr>) =
       Inr \<lparr>name = END_OF_INPUT, val = IntVal 0, line = 1, column = 7\<rparr>"
  by code_simp

text \<open>
  C7. The claim is that the end of the input inside a block comment gives the error
  "End-of-file in comment", for \<^verbatim>\<open>/* unterminated\<close> and in general. It does for
  \<^verbatim>\<open>/* unterminated\<close>, with that one token and nothing behind it. For \<^verbatim>\<open>/**\<close> the
  comment loop steps from the second star onto the terminator, finds no slash there,
  and its next \<^verbatim>\<open>s.next()\<close> steps over the terminator and reads index 4 of an array
  whose last index is 3.
\<close>

theorem comment_end_of_input:
  "main_tokens ''/* unterminated'' =
     Inr [\<lparr>name = ERROR,
           val = StrVal (''End-of-file in comment. Closing comment characters not found.'' @
                         [CHR 0x0A] @ replicate 28 (CHR '' '') @ ''(1, 16): /* unterminated''),
           line = 1, column = 1\<rparr>]
   \<and> main_tokens ''/**'' = Inl OutOfBounds
   \<and> next_token ''/**'' Lexer_init =
       (Inl OutOfBounds,
        \<lparr>s = \<lparr>pos = 4, line = 1, col = 5\<rparr>, pre_state = \<lparr>pos = 0, line = 1, col = 1\<rparr>\<rparr>)"
  by code_simp

text \<open>
  C8. The six characters quote, \<^verbatim>\<open>a\<close>, backslash, \<^verbatim>\<open>n\<close>, \<^verbatim>\<open>b\<close>, quote give one string
  token with the three characters \<^verbatim>\<open>a\<close>, newline, \<^verbatim>\<open>b\<close>; \<^verbatim>\<open>sanitize\<close> writes the
  newline as backslash, \<^verbatim>\<open>n\<close> again, and so does the line rendered for the token.
\<close>

theorem string_escape_round_trip:
  "main_tokens [CHR 0x22, CHR ''a'', CHR 0x5C, CHR ''n'', CHR ''b'', CHR 0x22] =
     Inr [\<lparr>name = STRING, val = StrVal [CHR ''a'', CHR 0x0A, CHR ''b''], line = 1, column = 1\<rparr>]
   \<and> sanitize [CHR ''a'', CHR 0x0A, CHR ''b''] = [CHR ''a'', CHR 0x5C, CHR ''n'', CHR ''b'']
   \<and> to_string_Token
         \<lparr>name = STRING, val = StrVal [CHR ''a'', CHR 0x0A, CHR ''b''], line = 1, column = 1\<rparr> =
       '' 1    1   String            '' @
       [CHR 0x22, CHR ''a'', CHR 0x5C, CHR ''n'', CHR ''b'', CHR 0x22, CHR 0x0A]"
  by code_simp

text \<open>
  C9. The claim is that the table has the header line, a line of 40 dashes, and one
  line per token up to the line of the end-of-input token. The table of the empty
  token list is not the header with 40 dashes, and has no end-of-input line. The one
  token of the source \<^verbatim>\<open>&x\<close>, an error token, is rendered on two lines: its table has
  four lines for one token.
\<close>

theorem list_tokens_not_as_claimed:
  "list_tokens [] \<noteq>
     ''Location  Token name        Value'' @ [CHR 0x0A] @ replicate 40 (CHR ''-'') @ [CHR 0x0A]
   \<and> line_count (list_tokens []) = 2
   \<and> main_tokens ''&x'' =
       Inr [\<lparr>name = ERROR,
             val = StrVal (''Unrecognized character '' @ [CHR 0x27, CHR ''x'', CHR 0x27, CHR 0x0A] @
                           replicate 28 (CHR '' '') @ ''(1, 2): &''),
             line = 1, column = 1\<rparr>]
   \<and> line_count (to_string_Token
         \<lparr>name = ERROR,
          val = StrVal (''Unrecognized character '' @ [CHR 0x27, CHR ''x'', CHR 0x27, CHR 0x0A] @
                        replicate 28 (CHR '' '') @ ''(1, 2): &''),
          line = 1, column = 1\<rparr>) = 2
   \<and> line_count (list_tokens
         [\<lparr>name = ERROR,
           val = StrVal (''Unrecognized character '' @ [CHR 0x27, CHR ''x'', CHR 0x27, CHR 0x0A] @
                         replicate 28 (CHR '' '') @ ''(1, 2): &''),
           line = 1, column = 1\<rparr>]) = 4"
  by code_simp

text \<open>
  C9, as the program behaves: for every token list the table is the header line, a
  line of 38 dashes, and then what \<^verbatim>\<open>to_string\<close> renders for each token, in the order
  of the list. A token is rendered on one line, and on one further line for each
  newline character in the value of an integer, identifier or error token (the text of
  a string token is escaped and adds none); so the table has two lines and the lines
  of its tokens. Every token that \<^verbatim>\<open>Lexer::error\<close> returns is an error token with a
  newline in its message, and takes two lines at least. A list that ends with the
  end-of-input token gives a table that ends with the one line of that token.
\<close>

theorem list_tokens_layout:
  "list_tokens tokens =
     ''Location  Token name        Value'' @ [CHR 0x0A] @
     replicate 38 (CHR ''-'') @ [CHR 0x0A] @
     concat (map to_string_Token tokens)
   \<and> list_tokens (tokens @ [\<lparr>name = END_OF_INPUT, val = v, line = l, column = c\<rparr>]) =
       list_tokens tokens @ setw2 l @ ''   '' @ setw2 c @ ''   '' @ ''End_of_input'' @ [CHR 0x0A]
   \<and> line_count (to_string_Token t) =
       (if name t = INTEGER \<or> name t = IDENTIFIER \<or> name t = ERROR
        then 1 + line_count (to_string_TokenVal (val t)) else 1)
   \<and> line_count (list_tokens tokens) =
       2 + sum_list (map (\<lambda>t. line_count (to_string_Token t)) tokens)
   \<and> (\<forall>src msg_text lx e lx'. error src msg_text lx = (Inr e, lx') \<longrightarrow>
          name e = ERROR \<and> 2 \<le> line_count (to_string_Token e))"
proof (intro conjI allI impI)
  show layout: "list_tokens tokens =
     ''Location  Token name        Value'' @ [CHR 0x0A] @
     replicate 38 (CHR ''-'') @ [CHR 0x0A] @
     concat (map to_string_Token tokens)" for tokens
    unfolding list_tokens_def foldl_append_concat dashes_38 by simp
  show "list_tokens (tokens @ [\<lparr>name = END_OF_INPUT, val = v, line = l, column = c\<rparr>]) =
       list_tokens tokens @ setw2 l @ ''   '' @ setw2 c @ ''   '' @ ''End_of_input'' @ [CHR 0x0A]"
    by (simp add: list_tokens_def to_string_Token_def)
  show "line_count (to_string_Token t) =
       (if name t = INTEGER \<or> name t = IDENTIFIER \<or> name t = ERROR
        then 1 + line_count (to_string_TokenVal (val t)) else 1)"
    by (rule line_count_to_string_Token)
  show "line_count (list_tokens tokens) =
       2 + sum_list (map (\<lambda>t. line_count (to_string_Token t)) tokens)"
    by (simp add: layout line_count_concat comp_def)
next
  fix src msg_text lx e lx'
  assume "error src msg_text lx = (Inr e, lx')"
  from error_message_newline [OF this]
  show "name e = ERROR" "2 \<le> line_count (to_string_Token e)"
    by (simp_all add: line_count_to_string_Token)
qed

theorem list_tokens_layout_witness:
  "error ''&x'' (''Unrecognized character '' @ [CHR 0x27, CHR ''x'', CHR 0x27])
     \<lparr>s = \<lparr>pos = 1, line = 1, col = 2\<rparr>, pre_state = Scanner_init\<rparr> =
     (Inr \<lparr>name = ERROR,
           val = StrVal (''Unrecognized character '' @ [CHR 0x27, CHR ''x'', CHR 0x27, CHR 0x0A] @
                         replicate 28 (CHR '' '') @ ''(1, 2): &''),
           line = 1, column = 1\<rparr>,
      \<lparr>s = \<lparr>pos = 2, line = 1, col = 3\<rparr>, pre_state = Scanner_init\<rparr>)
   \<and> 2 \<le> line_count (to_string_Token
         \<lparr>name = ERROR,
          val = StrVal (''Unrecognized character '' @ [CHR 0x27, CHR ''x'', CHR 0x27, CHR 0x0A] @
                        replicate 28 (CHR '' '') @ ''(1, 2): &''),
          line = 1, column = 1\<rparr>)"
proof -
  let ?e = "\<lparr>name = ERROR,
          val = StrVal (''Unrecognized character '' @ [CHR 0x27, CHR ''x'', CHR 0x27, CHR 0x0A] @
                        replicate 28 (CHR '' '') @ ''(1, 2): &''),
          line = 1, column = 1\<rparr>"
  have h: "error ''&x'' (''Unrecognized character '' @ [CHR 0x27, CHR ''x'', CHR 0x27])
     \<lparr>s = \<lparr>pos = 1, line = 1, col = 2\<rparr>, pre_state = Scanner_init\<rparr> =
     (Inr ?e, \<lparr>s = \<lparr>pos = 2, line = 1, col = 3\<rparr>, pre_state = Scanner_init\<rparr>)"
    by code_simp
  note th = list_tokens_layout [THEN conjunct2, THEN conjunct2, THEN conjunct2, THEN conjunct2,
      rule_format, OF h]
  from th h show ?thesis by simp
qed

text \<open>
  C10. The claim is that the driver collects tokens only while \<^verbatim>\<open>has_more\<close> holds, so
  that no end-of-input token is collected for the empty source or when the last token
  ends the source, and that an end-of-input token appears only when whitespace follows
  the last token. The source \<^verbatim>\<open>1/**/\<close> holds no whitespace character, and its run
  ends with the end-of-input token.
\<close>

theorem end_of_input_without_whitespace:
  "main_tokens ''1/**/'' =
     Inr [\<lparr>name = INTEGER, val = IntVal 1, line = 1, column = 1\<rparr>,
          \<lparr>name = END_OF_INPUT, val = IntVal 0, line = 1, column = 6\<rparr>]
   \<and> list_ex isspace ''1/**/'' = False"
  by code_simp

text \<open>
  C10, as the program behaves: the driver stops as soon as \<^verbatim>\<open>has_more\<close> is false, and
  the empty source gives no token. A call made under \<^verbatim>\<open>has_more\<close> that returns the
  end-of-input token began on a whitespace character or on the \<^verbatim>\<open>/*\<close> that opens a
  comment, and leaves the cursor on a null character directly behind a whitespace
  character or behind the \<^verbatim>\<open>*/\<close> that closes a comment. So a run holds an
  end-of-input token only when the source has a null character (its terminator, for a
  source without null characters) directly behind whitespace or behind a \<^verbatim>\<open>*/\<close>.
\<close>

theorem end_of_input_only_after_blank_or_comment:
  "(\<forall>lx acc. has_more src lx = Inr False \<longrightarrow> collect src lx acc = Inr acc)
   \<and> main_tokens [] = Inr []
   \<and> (\<forall>lx t lx'. pos (s lx) \<le> length src \<and> has_more src lx = Inr True \<and>
          next_token src lx = (Inr t, lx') \<and> name t = END_OF_INPUT \<longrightarrow>
          (space_at src (pos (s lx)) \<or> comment_open_at src (pos (s lx))) \<and>
          has_more src lx' = Inr False \<and> blank_or_comment_before src (pos (s lx')))
   \<and> (\<forall>ts. main_tokens src = Inr ts \<and> END_OF_INPUT \<in> set (map name ts) \<longrightarrow>
          (\<exists>p. deref src p = Inr (CHR 0x00) \<and> blank_or_comment_before src p))"
proof (intro conjI allI impI)
  fix lx acc assume "has_more src lx = Inr False"
  then show "collect src lx acc = Inr acc" by (subst collect.simps) simp
next
  show "main_tokens [] = Inr []" by code_simp
next
  fix lx t lx'
  assume a: "pos (s lx) \<le> length src \<and> has_more src lx = Inr True \<and>
          next_token src lx = (Inr t, lx') \<and> name t = END_OF_INPUT"
  from next_token_eoi_has_more [of lx src t lx'] a
  show "space_at src (pos (s lx)) \<or> comment_open_at src (pos (s lx))"
    "has_more src lx' = Inr False" "blank_or_comment_before src (pos (s lx'))" by auto
next
  fix ts assume a: "main_tokens src = Inr ts \<and> END_OF_INPUT \<in> set (map name ts)"
  from collect_eoi [of Lexer_init src "[]" ts] a
  show "\<exists>p. deref src p = Inr (CHR 0x00) \<and> blank_or_comment_before src p"
    by (simp add: main_tokens_def Lexer_init_def Scanner_init_def)
qed

theorem end_of_input_only_after_blank_or_comment_witness:
  "has_more ''1 '' \<lparr>s = \<lparr>pos = 1, line = 1, col = 2\<rparr>, pre_state = Scanner_init\<rparr> = Inr True
   \<and> next_token ''1 '' \<lparr>s = \<lparr>pos = 1, line = 1, col = 2\<rparr>, pre_state = Scanner_init\<rparr> =
       (Inr \<lparr>name = END_OF_INPUT, val = IntVal 0, line = 1, column = 3\<rparr>,
        \<lparr>s = \<lparr>pos = 2, line = 1, col = 3\<rparr>, pre_state = \<lparr>pos = 2, line = 1, col = 3\<rparr>\<rparr>)
   \<and> space_at ''1 '' 1
   \<and> blank_or_comment_before ''1 '' 2
   \<and> main_tokens ''1 '' =
       Inr [\<lparr>name = INTEGER, val = IntVal 1, line = 1, column = 1\<rparr>,
            \<lparr>name = END_OF_INPUT, val = IntVal 0, line = 1, column = 3\<rparr>]
   \<and> (\<exists>p. deref ''1 '' p = Inr (CHR 0x00) \<and> blank_or_comment_before ''1 '' p)"
proof -
  let ?lx = "\<lparr>s = \<lparr>pos = 1, line = 1, col = 2\<rparr>, pre_state = Scanner_init\<rparr>"
  let ?lx' = "\<lparr>s = \<lparr>pos = 2, line = 1, col = 3\<rparr>, pre_state = \<lparr>pos = 2, line = 1, col = 3\<rparr>\<rparr>"
  let ?t = "\<lparr>name = END_OF_INPUT, val = IntVal 0, line = 1, column = 3\<rparr>"
  have h1: "has_more ''1 '' ?lx = Inr True" by code_simp
  have h2: "next_token ''1 '' ?lx = (Inr ?t, ?lx')" by code_simp
  have h3: "main_tokens ''1 '' =
       Inr [\<lparr>name = INTEGER, val = IntVal 1, line = 1, column = 1\<rparr>, ?t]" by code_simp
  note th = end_of_input_only_after_blank_or_comment [of "''1 ''"]
  note call = th [THEN conjunct2, THEN conjunct2, THEN conjunct1, rule_format, of ?lx ?t ?lx']
  note run = th [THEN conjunct2, THEN conjunct2, THEN conjunct2, rule_format,
      of "[\<lparr>name = INTEGER, val = IntVal 1, line = 1, column = 1\<rparr>, ?t]"]
  have "pos (s ?lx) \<le> length ''1 '' \<and> has_more ''1 '' ?lx = Inr True \<and>
        next_token ''1 '' ?lx = (Inr ?t, ?lx') \<and> name ?t = END_OF_INPUT"
    using h1 h2 by simp
  from call [OF this]
  have c: "space_at ''1 '' 1 \<or> comment_open_at ''1 '' 1" "blank_or_comment_before ''1 '' 2"
    by simp_all
  have "\<not> comment_open_at ''1 '' 1" by (simp add: comment_open_at_def)
  with c have c1: "space_at ''1 '' 1" by simp
  have "main_tokens ''1 '' = Inr [\<lparr>name = INTEGER, val = IntVal 1, line = 1, column = 1\<rparr>, ?t] \<and>
        END_OF_INPUT \<in> set (map name [\<lparr>name = INTEGER, val = IntVal 1, line = 1, column = 1\<rparr>, ?t])"
    using h3 by simp
  from run [OF this] c c1 h1 h2 h3 show ?thesis by simp
qed

end
